theory Spec2Isabelle
  imports Main "HOL-Library.Monad_Syntax"
begin

section \<open>The crossword engine of CrosswordEngine.h\<close>

text \<open>
  A failed \<^verbatim>\<open>assert\<close>, an access outside a vector or string and an integer
  conversion out of range abort the program: every fallible operation returns an
  \<open>option\<close>, and \<open>None\<close> is the abort.
\<close>

subsection \<open>Data structures\<close>

text \<open>The test \<^verbatim>\<open>c >= 'A' && c <= 'Z'\<close> on a byte.\<close>

definition is_letter :: "char \<Rightarrow> bool" where
  "is_letter c = (let n = (of_char c :: nat) in 65 \<le> n \<and> n \<le> 90)"

datatype Word = Word (word_s: string)

definition word_len :: "Word \<Rightarrow> nat" where
  "word_len w = length (word_s w)"

record Library =
  m_vecWords :: "Word list"
  m_umapWords :: "string \<rightharpoonup> Word list"
  m_vecCounts :: "int list"

text \<open>The constructor \<^verbatim>\<open>Library::Library() {}\<close>: all three containers are empty.\<close>

definition Library_new :: Library where
  "Library_new = \<lparr>m_vecWords = [], m_umapWords = Map.empty, m_vecCounts = []\<rparr>"

subsection \<open>cw::Library\<close>

text \<open>
  \<^verbatim>\<open>toupper\<close> in the default locale: the bytes \<^verbatim>\<open>a\<close> to \<^verbatim>\<open>z\<close> (97 to 122) lose 32,
  every other byte is returned as it is.
\<close>

definition toupper :: "char \<Rightarrow> char" where
  "toupper c = (let n = (of_char c :: nat) in
     if 97 \<le> n \<and> n \<le> 122 then char_of (n - 32) else c)"

definition ToUpper :: "string \<Rightarrow> string" where
  "ToUpper sWord = fold (\<lambda>c s. s @ [toupper c]) sWord []"

text \<open>
  The inner loop of \<^verbatim>\<open>CreatePatternHash\<close>: for \<open>j\<close> from 0 below \<open>len\<close>, the
  character at \<open>j\<close> becomes the wildcard when bit \<open>j\<close> of \<open>i\<close> is set
  (\<^verbatim>\<open>(i >> j) & 1\<close>).
\<close>

definition mask_pattern :: "string \<Rightarrow> nat \<Rightarrow> string" where
  "mask_pattern w i =
     fold (\<lambda>j s. if and (drop_bit j i) 1 \<noteq> 0 then s[j := CHR ''.''] else s) [0..<length w] w"

text \<open>\<^verbatim>\<open>m_umapWords[s].push_back(word)\<close>: a missing key starts from the empty vector.\<close>

definition push_bucket :: "string \<Rightarrow> Word \<Rightarrow> Library \<Rightarrow> Library" where
  "push_bucket k word lib =
     lib\<lparr>m_umapWords := (m_umapWords lib)
       (k \<mapsto> (case m_umapWords lib k of None \<Rightarrow> [] | Some b \<Rightarrow> b) @ [word])\<rparr>"

text \<open>
  \<^verbatim>\<open>int nPatterns = pow(2, len)\<close> is defined only while the power fits an \<^verbatim>\<open>int\<close>
  (32 bits), that is for \<open>len \<le> 30\<close>; beyond, the conversion is out of range and the
  model aborts.
\<close>

definition CreatePatternHash :: "Word \<Rightarrow> Library \<Rightarrow> Library option" where
  "CreatePatternHash word lib =
     (if 31 \<le> word_len word then None
      else Some (fold (\<lambda>i. push_bucket (mask_pattern (word_s word) i) word)
                   [0..<2 ^ word_len word] lib))"

text \<open>
  The file is the sequence of strings that \<^verbatim>\<open>std::getline\<close> returns until end of
  file. In \<^verbatim>\<open>line.length() <= nMaxSize\<close> the left side is a \<^verbatim>\<open>size_t\<close> (64 bits) and the
  right side an \<^verbatim>\<open>int\<close>, which the comparison converts to \<^verbatim>\<open>size_t\<close>: a negative
  \<open>nMaxSize\<close> becomes \<open>nMaxSize + 2 ^ 64\<close>, above every length.
\<close>

definition size_t_of_int :: "int \<Rightarrow> int" where
  "size_t_of_int n = (if 0 \<le> n then n else n + 2 ^ 64)"

text \<open>
  The step that removes the undesired character: the last character of the line goes when
  it is a carriage return, a space or a tab. It runs on non-empty lines only.
\<close>

definition strip_last :: "string \<Rightarrow> string" where
  "strip_last line =
     (let len = length line in
      if line ! (len - 1) = CHR 0x0D \<or> line ! (len - 1) = CHR '' '' \<or> line ! (len - 1) = CHR 0x09
      then take (len - 1) line else line)"

fun ReadFromFile :: "string list \<Rightarrow> int \<Rightarrow> Library \<Rightarrow> Library option" where
  "ReadFromFile [] nMaxSize lib = Some lib"
| "ReadFromFile (line # f) nMaxSize lib =
     (if line \<noteq> [] then
        (let line = strip_last (ToUpper line) in
         if int (length line) \<le> size_t_of_int nMaxSize then
           (let w = Word line in
            do { lib' \<leftarrow> CreatePatternHash w (lib\<lparr>m_vecWords := m_vecWords lib @ [w]\<rparr>);
                 ReadFromFile f nMaxSize lib' })
         else ReadFromFile f nMaxSize lib)
      else ReadFromFile f nMaxSize lib)"

definition IsWord :: "Library \<Rightarrow> string \<Rightarrow> bool" where
  "IsWord lib sWord = (m_umapWords lib sWord \<noteq> None)"

text \<open>\<^verbatim>\<open>FindWord\<close> returns a pointer to the bucket, or the null pointer: \<open>None\<close>.\<close>

definition FindWord :: "Library \<Rightarrow> string \<Rightarrow> Word list option" where
  "FindWord lib sPattern = m_umapWords lib sPattern"

subsection \<open>Points, spans, slots and the grid\<close>

record Point =
  nRow :: int
  nCol :: int

record Span =
  point :: Point
  nLen :: int
  bVert :: bool

record Attribute =
  bHasLetters :: bool
  bHasBlanks :: bool

record Slot =
  span :: Span
  sPattern :: string

record Grid =
  sID :: string
  vecLines :: "string list"
  vecSpans :: "Span list"

text \<open>\<^verbatim>\<open>Span::GetPoint\<close> asserts \<^verbatim>\<open>i >= 0 && i < nLen\<close>.\<close>

definition GetPoint :: "Span \<Rightarrow> int \<Rightarrow> Point option" where
  "GetPoint sp i =
     (if 0 \<le> i \<and> i < nLen sp then
        Some (if bVert sp then \<lparr>nRow = nRow (point sp) + i, nCol = nCol (point sp)\<rparr>
              else \<lparr>nRow = nRow (point sp), nCol = nCol (point sp) + i\<rparr>)
      else None)"

definition IsEmpty :: "Attribute \<Rightarrow> bool" where
  "IsEmpty attr = (bHasBlanks attr \<and> \<not> bHasLetters attr)"

definition IsPartial :: "Attribute \<Rightarrow> bool" where
  "IsPartial attr = (bHasBlanks attr \<and> bHasLetters attr)"

definition IsFull :: "Attribute \<Rightarrow> bool" where
  "IsFull attr = (\<not> bHasBlanks attr \<and> bHasLetters attr)"

text \<open>A default-constructed \<^verbatim>\<open>Attribute\<close> and \<^verbatim>\<open>Point\<close>.\<close>

definition Attribute_new :: Attribute where
  "Attribute_new = \<lparr>bHasLetters = False, bHasBlanks = False\<rparr>"

definition Point_new :: Point where
  "Point_new = \<lparr>nRow = 0, nCol = 0\<rparr>"

subsection \<open>cw::Grid\<close>

definition Grid_new :: "string \<Rightarrow> Grid" where
  "Grid_new name = \<lparr>sID = name, vecLines = [], vecSpans = []\<rparr>"

definition rows :: "Grid \<Rightarrow> int" where
  "rows g = int (length (vecLines g))"

definition cols :: "Grid \<Rightarrow> int" where
  "cols g = (if vecLines g \<noteq> [] then int (length (vecLines g ! 0)) else 0)"

definition MaxSize :: "Grid \<Rightarrow> int" where
  "MaxSize g = max (rows g) (cols g)"

text \<open>
  \<^verbatim>\<open>LoadFromFile\<close> pushes every line that is not empty and does not start with a
  slash; it always returns true, so the model returns the grid alone.
\<close>

definition LoadFromFile :: "string list \<Rightarrow> Grid \<Rightarrow> Grid" where
  "LoadFromFile f g =
     fold (\<lambda>line g. if line \<noteq> [] \<and> line ! 0 \<noteq> CHR ''/''
                     then g\<lparr>vecLines := vecLines g @ [line]\<rparr> else g) f g"

text \<open>\<^verbatim>\<open>CheckSize\<close> asserts, for every line, that its size is \<^verbatim>\<open>cols()\<close>.\<close>

definition CheckSize :: "Grid \<Rightarrow> unit option" where
  "CheckSize g = (if list_all (\<lambda>s. int (length s) = cols g) (vecLines g) then Some () else None)"

definition IsInBounds :: "Grid \<Rightarrow> Point \<Rightarrow> bool" where
  "IsInBounds g p = (nRow p \<ge> 0 \<and> nRow p < rows g \<and> nCol p \<ge> 0 \<and> nCol p < cols g)"

text \<open>
  \<^verbatim>\<open>GetChar\<close> and \<^verbatim>\<open>SetChar\<close> assert that the point is in bounds, then index the
  line; a column beyond the end of a shorter line is outside the string, an abort too.
\<close>

definition GetChar :: "Grid \<Rightarrow> Point \<Rightarrow> char option" where
  "GetChar g p =
     (if IsInBounds g p then
        (let line = vecLines g ! nat (nRow p) in
         if nat (nCol p) < length line then Some (line ! nat (nCol p)) else None)
      else None)"

definition SetChar :: "Grid \<Rightarrow> Point \<Rightarrow> char \<Rightarrow> Grid option" where
  "SetChar g p c =
     (if IsInBounds g p then
        (let line = vecLines g ! nat (nRow p) in
         if nat (nCol p) < length line
         then Some (g\<lparr>vecLines := (vecLines g)[nat (nRow p) := line[nat (nCol p) := c]]\<rparr>)
         else None)
      else None)"

definition IsBlock :: "Grid \<Rightarrow> Point \<Rightarrow> bool option" where
  "IsBlock g p = map_option (\<lambda>c. c = CHR ''#'') (GetChar g p)"

definition IsBlank :: "Grid \<Rightarrow> Point \<Rightarrow> bool option" where
  "IsBlank g p = map_option (\<lambda>c. c = CHR ''.'') (GetChar g p)"

definition IsLetter :: "Grid \<Rightarrow> Point \<Rightarrow> bool option" where
  "IsLetter g p = map_option is_letter (GetChar g p)"

text \<open>
  \<^verbatim>\<open>GetString\<close>: the string is resized to \<open>len\<close> (a negative \<open>len\<close> is no size),
  then filled cell by cell while the attribute collects what was seen.
\<close>

fun GetString_loop ::
  "Grid \<Rightarrow> Span \<Rightarrow> int list \<Rightarrow> string \<times> Attribute \<Rightarrow> (string \<times> Attribute) option" where
  "GetString_loop g sp [] sa = Some sa"
| "GetString_loop g sp (i # is) (s, attr) =
     do { p \<leftarrow> GetPoint sp i;
          c \<leftarrow> GetChar g p;
          GetString_loop g sp is
            (s[nat i := c],
             if c = CHR ''.'' then attr\<lparr>bHasBlanks := True\<rparr>
             else if is_letter c then attr\<lparr>bHasLetters := True\<rparr>
             else attr) }"

definition GetString :: "Grid \<Rightarrow> Span \<Rightarrow> Attribute \<Rightarrow> (string \<times> Attribute) option" where
  "GetString g sp attr =
     (let len = nLen sp in
      if len < 0 then None
      else GetString_loop g sp [0..len - 1] (replicate (nat len) (CHR 0x00), attr))"

text \<open>\<^verbatim>\<open>SetString\<close> asserts \<^verbatim>\<open>len == str.length()\<close>, then writes cell by cell.\<close>

fun SetString_loop :: "Grid \<Rightarrow> Span \<Rightarrow> string \<Rightarrow> int list \<Rightarrow> Grid option" where
  "SetString_loop g sp str [] = Some g"
| "SetString_loop g sp str (i # is) =
     do { p \<leftarrow> GetPoint sp i;
          g' \<leftarrow> SetChar g p (str ! nat i);
          SetString_loop g' sp str is }"

definition SetString :: "Grid \<Rightarrow> Span \<Rightarrow> string \<Rightarrow> Grid option" where
  "SetString g sp str =
     (let len = nLen sp in
      if len = int (length str) then SetString_loop g sp str [0..len - 1] else None)"

text \<open>\<^verbatim>\<open>Next\<close> and \<^verbatim>\<open>NextStopAtWrap\<close> move the point and return a flag.\<close>

definition Next :: "Grid \<Rightarrow> Point \<Rightarrow> bool \<Rightarrow> bool \<times> Point" where
  "Next g p vert =
     (let p' = (if vert then
                  (let p1 = p\<lparr>nRow := nRow p + 1\<rparr> in
                   if nRow p1 \<ge> rows g then p1\<lparr>nRow := 0, nCol := nCol p1 + 1\<rparr> else p1)
                else
                  (let p1 = p\<lparr>nCol := nCol p + 1\<rparr> in
                   if nCol p1 \<ge> cols g then p1\<lparr>nCol := 0, nRow := nRow p1 + 1\<rparr> else p1))
      in (IsInBounds g p', p'))"

definition NextStopAtWrap :: "Grid \<Rightarrow> Point \<Rightarrow> bool \<Rightarrow> bool \<times> Point" where
  "NextStopAtWrap g p vert =
     (if vert then
        (let p1 = p\<lparr>nRow := nRow p + 1\<rparr> in
         if nRow p1 \<ge> rows g then (False, p1\<lparr>nRow := 0, nCol := nCol p1 + 1\<rparr>) else (True, p1))
      else
        (let p1 = p\<lparr>nCol := nCol p + 1\<rparr> in
         if nCol p1 \<ge> cols g then (False, p1\<lparr>nCol := 0, nRow := nRow p1 + 1\<rparr>) else (True, p1)))"

text \<open>
  The scan position of a point, and the cells the scan has still to visit: the measure
  under which the loops of \<^verbatim>\<open>FillSpans\<close> terminate.
\<close>

definition scan_index :: "Grid \<Rightarrow> bool \<Rightarrow> Point \<Rightarrow> int" where
  "scan_index g vert p = (if vert then nCol p * rows g + nRow p else nRow p * cols g + nCol p)"

definition scan_left :: "Grid \<Rightarrow> bool \<Rightarrow> Point \<Rightarrow> nat" where
  "scan_left g vert p = nat (rows g * cols g - scan_index g vert p)"

lemma in_bounds_index: "IsInBounds g p \<Longrightarrow> scan_index g vert p < rows g * cols g"
proof -
  assume b: "IsInBounds g p"
  then have r: "nRow p + 1 \<le> rows g" "nCol p + 1 \<le> cols g" "0 \<le> nRow p" "0 \<le> nCol p"
    by (auto simp: IsInBounds_def)
  have "(nRow p + 1) * cols g \<le> rows g * cols g"
    using r by (intro mult_right_mono) auto
  moreover have "(nCol p + 1) * rows g \<le> cols g * rows g"
    using r by (intro mult_right_mono) auto
  ultimately show ?thesis
    using r by (auto simp: scan_index_def algebra_simps)
qed

lemma Next_index:
  "IsInBounds g p \<Longrightarrow> scan_index g vert (snd (Next g p vert)) = scan_index g vert p + 1"
  by (auto simp: Next_def IsInBounds_def scan_index_def Let_def algebra_simps)

lemma NextStopAtWrap_index:
  "IsInBounds g p \<Longrightarrow>
   scan_index g vert (snd (NextStopAtWrap g p vert)) = scan_index g vert p + 1"
  by (auto simp: NextStopAtWrap_def IsInBounds_def scan_index_def Let_def algebra_simps)

lemma IsBlock_in_bounds: "IsBlock g p = Some b \<Longrightarrow> IsInBounds g p"
  by (auto simp: IsBlock_def GetChar_def split: if_splits)

function skip_blocks :: "Grid \<Rightarrow> bool \<Rightarrow> Point \<Rightarrow> Point option" where
  "skip_blocks g vert p =
     (if IsInBounds g p then
        (case IsBlock g p of
           None \<Rightarrow> None
         | Some b \<Rightarrow> if b then skip_blocks g vert (snd (Next g p vert)) else Some p)
      else Some p)"
  by pat_completeness auto
termination
proof (relation "measure (\<lambda>(g, vert, p). scan_left g vert p)")
  show "wf (measure (\<lambda>(g, vert, p). scan_left g vert p))" by simp
next
  fix g vert p b
  assume "IsInBounds g p"
  then show "((g, vert, snd (Next g p vert)), g, vert, p)
      \<in> measure (\<lambda>(g, vert, p). scan_left g vert p)"
    using in_bounds_index [of g p vert] by (simp add: scan_left_def Next_index)
qed

function count_span :: "Grid \<Rightarrow> bool \<Rightarrow> Point \<Rightarrow> int \<Rightarrow> (Point \<times> int) option" where
  "count_span g vert p len =
     (let (keep_going, p') = NextStopAtWrap g p vert; len' = len + 1 in
      if keep_going then
        (case IsBlock g p' of
           None \<Rightarrow> None
         | Some b \<Rightarrow> if \<not> b then count_span g vert p' len' else Some (p', len'))
      else Some (p', len'))"
  by pat_completeness auto

termination
proof (relation "measure (\<lambda>(g, vert, p, len). scan_left g vert p)")
  show "wf (measure (\<lambda>(g, vert, p, len). scan_left g vert p))" by simp
next
  fix g vert p len x keep_going p' len' b
  assume x: "x = NextStopAtWrap g p vert" "(keep_going, p') = x" and l: "len' = len + 1"
    and kg: keep_going and blk: "IsBlock g p' = Some b"
  from x have p': "p' = snd (NextStopAtWrap g p vert)" and k: "keep_going = fst (NextStopAtWrap g p vert)"
    by (metis snd_conv, metis fst_conv)
  from kg k have idx: "scan_index g vert p' = scan_index g vert p + 1"
    unfolding p' by (auto simp: NextStopAtWrap_def scan_index_def Let_def split: if_splits)
  from blk have "IsInBounds g p'" by (rule IsBlock_in_bounds)
  then have "scan_index g vert p' < rows g * cols g" by (rule in_bounds_index)
  with idx show "((g, vert, p', len'), g, vert, p, len)
      \<in> measure (\<lambda>(g, vert, p, len). scan_left g vert p)"
    by (simp add: scan_left_def)
qed

lemma skip_blocks_index:
  "skip_blocks g vert p = Some p1 \<Longrightarrow> scan_index g vert p \<le> scan_index g vert p1"
proof (induction g vert p rule: skip_blocks.induct)
  case (1 g vert p)
  show ?case
  proof (cases "IsInBounds g p \<and> IsBlock g p = Some True")
    case True
    with "1.prems" have "skip_blocks g vert (snd (Next g p vert)) = Some p1"
      by (simp split: option.splits)
    with "1.IH" True have "scan_index g vert (snd (Next g p vert)) \<le> scan_index g vert p1"
      by simp
    with True show ?thesis by (simp add: Next_index)
  next
    case False
    with "1.prems" have "p1 = p"
      by (auto split: if_splits option.splits)
    then show ?thesis by simp
  qed
qed

lemma count_span_index:
  "IsInBounds g p \<Longrightarrow> count_span g vert p len = Some (p2, len2) \<Longrightarrow>
   scan_index g vert p < scan_index g vert p2"
proof (induction g vert p len rule: count_span.induct)
  case (1 g vert p len)
  obtain kg p' where n: "NextStopAtWrap g p vert = (kg, p')" by (cases "NextStopAtWrap g p vert")
  have idx: "scan_index g vert p' = scan_index g vert p + 1"
    using NextStopAtWrap_index [OF "1.prems"(1), of vert] n by simp
  show ?case
  proof (cases "kg \<and> IsBlock g p' = Some False")
    case True
    with "1.prems"(2) n have rec: "count_span g vert p' (len + 1) = Some (p2, len2)"
      by (simp add: Let_def)
    from True have inb: "IsInBounds g p'" by (auto dest: IsBlock_in_bounds)
    have "scan_index g vert p' < scan_index g vert p2"
      using "1.IH" [OF refl n [symmetric] refl _ _ _ inb rec] True by blast
    with idx show ?thesis by simp
  next
    case False
    with "1.prems"(2) n have "p2 = p'"
      by (auto simp: Let_def split: if_splits option.splits)
    with idx show ?thesis by simp
  qed
qed

function FillSpans_loop :: "Grid \<Rightarrow> bool \<Rightarrow> Point \<Rightarrow> Span list \<Rightarrow> Span list option" where
  "FillSpans_loop g vert p spans =
     (if IsInBounds g p then
        (case skip_blocks g vert p of
           None \<Rightarrow> None
         | Some p1 \<Rightarrow>
             if \<not> IsInBounds g p1 then Some spans
             else
               (case count_span g vert p1 0 of
                  None \<Rightarrow> None
                | Some (p2, len) \<Rightarrow>
                    FillSpans_loop g vert p2 (spans @ [\<lparr>point = p1, nLen = len, bVert = vert\<rparr>])))
      else Some spans)"
  by pat_completeness auto
termination
proof (relation "measure (\<lambda>(g, vert, p, spans). scan_left g vert p)")
  show "wf (measure (\<lambda>(g, vert, p, spans). scan_left g vert p))" by simp
next
  fix g vert p spans p1 x p2 len
  assume "IsInBounds g p" and s: "skip_blocks g vert p = Some p1" and "\<not> \<not> IsInBounds g p1"
    and c: "count_span g vert p1 0 = Some x" "(p2, len) = x"
  then have b1: "IsInBounds g p1" by simp
  from c have "count_span g vert p1 0 = Some (p2, len)" by simp
  from count_span_index [OF b1 this] skip_blocks_index [OF s] in_bounds_index [OF \<open>IsInBounds g p\<close>, of vert]
  show "((g, vert, p2, spans @ [\<lparr>point = p1, nLen = len, bVert = vert\<rparr>]), g, vert, p, spans)
      \<in> measure (\<lambda>(g, vert, p, spans). scan_left g vert p)"
    by (simp add: scan_left_def)
qed

text \<open>
  \<^verbatim>\<open>FillSpans(bool)\<close> starts at the default point and pushes onto \<^verbatim>\<open>vecSpans\<close>;
  \<^verbatim>\<open>FillSpans()\<close> asserts that the vector is empty and walks both directions.
\<close>

definition FillSpans_dir :: "bool \<Rightarrow> Grid \<Rightarrow> Grid option" where
  "FillSpans_dir vert g =
     map_option (\<lambda>spans. g\<lparr>vecSpans := spans\<rparr>) (FillSpans_loop g vert Point_new (vecSpans g))"

definition FillSpans :: "Grid \<Rightarrow> Grid option" where
  "FillSpans g =
     (if vecSpans g = [] then do { g1 \<leftarrow> FillSpans_dir False g; FillSpans_dir True g1 }
      else None)"

subsection \<open>cw::StringSet and cw::Engine\<close>

definition ExistsInSet :: "string set \<Rightarrow> string \<Rightarrow> bool" where
  "ExistsInSet strings sWord = (sWord \<in> strings)"

text \<open>\<^verbatim>\<open>AddToSet\<close> asserts that the string is not yet in the set.\<close>

definition AddToSet :: "string set \<Rightarrow> string \<Rightarrow> string set option" where
  "AddToSet strings sWord =
     (if \<not> ExistsInSet strings sWord then Some (insert sWord strings) else None)"

record Engine =
  m_grid :: Grid
  m_lib :: Library
  m_setStr :: "string set"

text \<open>\<^verbatim>\<open>PrintSpans\<close> reads the string of every span; what it prints is its value.\<close>

definition PrintSpans :: "Grid \<Rightarrow> string list option" where
  "PrintSpans g = those (map (\<lambda>sp. map_option fst (GetString g sp Attribute_new)) (vecSpans g))"

text \<open>
  \<^verbatim>\<open>Init\<close> on a freshly constructed engine: the grid is allocated with the name
  \<^verbatim>\<open>"0"\<close>, loaded, checked and scanned for spans, and the library is read with the
  grid's largest dimension as the maximal word length.
\<close>

definition Init :: "string list \<Rightarrow> string list \<Rightarrow> Engine option" where
  "Init sGridFile sLibraryFile =
     do { let g = LoadFromFile sGridFile (Grid_new ''0'');
          _ \<leftarrow> CheckSize g;
          g \<leftarrow> FillSpans g;
          _ \<leftarrow> PrintSpans g;
          lib \<leftarrow> ReadFromFile sLibraryFile (MaxSize g) Library_new;
          Some \<lparr>m_grid = g, m_lib = lib, m_setStr = {}\<rparr> }"

text \<open>
  The first loop of \<^verbatim>\<open>Loop\<close>: every span is read with a fresh attribute and pushed
  onto the vector of empty, of partial or of full slots, or onto none of them.
\<close>

fun classify ::
  "Grid \<Rightarrow> Span list \<Rightarrow> Slot list \<times> Slot list \<times> Slot list \<Rightarrow>
   (Slot list \<times> Slot list \<times> Slot list) option" where
  "classify grid [] slots = Some slots"
| "classify grid (sp # spans) (vecEmptySlots, vecPartialSlots, vecFullSlots) =
     do { (s, attr) \<leftarrow> GetString grid sp Attribute_new;
          classify grid spans
            (if IsEmpty attr then
               (vecEmptySlots @ [\<lparr>span = sp, sPattern = s\<rparr>], vecPartialSlots, vecFullSlots)
             else if IsPartial attr then
               (vecEmptySlots, vecPartialSlots @ [\<lparr>span = sp, sPattern = s\<rparr>], vecFullSlots)
             else if IsFull attr then
               (vecEmptySlots, vecPartialSlots, vecFullSlots @ [\<lparr>span = sp, sPattern = s\<rparr>])
             else (vecEmptySlots, vecPartialSlots, vecFullSlots)) }"

text \<open>
  The duplicate check: \<open>Some False\<close> when a string is met twice (the node returns),
  \<open>Some True\<close> at the end of the vector, \<open>None\<close> when \<^verbatim>\<open>AddToSet\<close> aborts.
\<close>

fun check_duplicates :: "Slot list \<Rightarrow> string set \<Rightarrow> bool option" where
  "check_duplicates [] usetStrings = Some True"
| "check_duplicates (w # ws) usetStrings =
     (if ExistsInSet usetStrings (sPattern w) then Some False
      else do { u \<leftarrow> AddToSet usetStrings (sPattern w); check_duplicates ws u })"

text \<open>
  A run of the search: the grids printed as solutions, in order, and how the run ended.
  The recursion of \<^verbatim>\<open>Loop\<close> through \<^verbatim>\<open>CommitSlot\<close> is bounded by fuel, the number
  of nested calls of \<^verbatim>\<open>Loop\<close> allowed: a run that needs more ends in \<open>OutOfFuel\<close>.
  \<^verbatim>\<open>Loop\<close> takes the grid by value, \<^verbatim>\<open>CommitSlot\<close> by reference: the loop over the
  candidate words writes each word into the grid the previous iteration left.
\<close>

datatype ending = Returned | Aborted | OutOfFuel

fun Loop :: "nat \<Rightarrow> Library \<Rightarrow> Grid \<Rightarrow> int \<Rightarrow> Grid list \<times> ending"
  and CommitSlot :: "nat \<Rightarrow> Library \<Rightarrow> Grid \<Rightarrow> Slot \<Rightarrow> int \<Rightarrow> Grid list \<times> ending"
  and CommitSlot_words ::
    "nat \<Rightarrow> Library \<Rightarrow> Grid \<Rightarrow> Slot \<Rightarrow> int \<Rightarrow> Word list \<Rightarrow> Word list \<Rightarrow> Grid list \<times> ending"
  where
  "Loop 0 lib grid nDepth = ([], OutOfFuel)"
| "Loop (Suc fuel) lib grid nDepth =
     (let nDepth = nDepth + 1 in
      case classify grid (vecSpans grid) ([], [], []) of
        None \<Rightarrow> ([], Aborted)
      | Some (vecEmptySlots, vecPartialSlots, vecFullSlots) \<Rightarrow>
          let nEmpty = int (length vecEmptySlots);
              nPartial = int (length vecPartialSlots)
          in
          if \<not> list_all (\<lambda>w. IsWord lib (sPattern w)) vecFullSlots then ([], Returned)
          else
            (case check_duplicates vecFullSlots {} of
               None \<Rightarrow> ([], Aborted)
             | Some False \<Rightarrow> ([], Returned)
             | Some True \<Rightarrow>
                 if nPartial = 0 \<and> nEmpty = 0 then ([grid], Returned)
                 else if \<not> nPartial > 0 then ([], Aborted)
                 else CommitSlot fuel lib grid (vecPartialSlots ! 0) nDepth))"
| "CommitSlot fuel lib grid slot nDepth =
     (case FindWord lib (sPattern slot) of
        Some words \<Rightarrow> CommitSlot_words fuel lib grid slot nDepth words words
      | None \<Rightarrow> ([], Returned))"
| "CommitSlot_words fuel lib grid slot nDepth words [] = ([], Returned)"
| "CommitSlot_words fuel lib grid slot nDepth words (w # rest) =
     (if words = [] then ([], Aborted)
      else
        (case SetString grid (span slot) (word_s w) of
           None \<Rightarrow> ([], Aborted)
         | Some grid' \<Rightarrow>
             (case Loop fuel lib grid' nDepth of
                (out, Returned) \<Rightarrow>
                  (case CommitSlot_words fuel lib grid' slot nDepth words rest of
                     (out', e) \<Rightarrow> (out @ out', e))
              | (out, e) \<Rightarrow> (out, e))))"

text \<open>
  \<^verbatim>\<open>Search\<close> passes a copy of the engine's grid to \<^verbatim>\<open>Loop\<close>; the engine it leaves is
  the first component of the result.
\<close>

definition Search :: "nat \<Rightarrow> Engine \<Rightarrow> Engine \<times> Grid list \<times> ending" where
  "Search fuel e = (e, Loop fuel (m_lib e) (m_grid e) 0)"

section \<open>Properties\<close>

subsection \<open>The pattern index\<close>

text \<open>
  The bucket of a key (empty for a missing key), the masked patterns of a word, and the
  invariant of the index: the bucket of a key holds exactly the words of the master list
  that have the key among their masked patterns, and no bucket is empty.
\<close>

definition bucket_of :: "Library \<Rightarrow> string \<Rightarrow> Word list" where
  "bucket_of lib k = (case m_umapWords lib k of None \<Rightarrow> [] | Some b \<Rightarrow> b)"

definition patterns_of :: "Word \<Rightarrow> string set" where
  "patterns_of w = mask_pattern (word_s w) ` {..<2 ^ word_len w}"

definition lib_inv :: "Library \<Rightarrow> bool" where
  "lib_inv lib \<longleftrightarrow>
     (\<forall>k. set (bucket_of lib k) = {w \<in> set (m_vecWords lib). k \<in> patterns_of w}
        \<and> m_umapWords lib k \<noteq> Some [])"

lemma fold_snoc_map: "fold (\<lambda>c s. s @ [f c]) xs acc = acc @ map f xs"
  by (induction xs arbitrary: acc) auto

lemma ToUpper_map: "ToUpper w = map toupper w"
  by (simp add: ToUpper_def fold_snoc_map)

lemma bit_test_iff: "(and (drop_bit j i) 1 \<noteq> 0) = bit (i::nat) j"
  by (simp add: bit_iff_and_drop_bit_eq_1 and_one_eq)

lemma mask_fold_length:
  "length (fold (\<lambda>j s. if P j then s[j := c] else s) js w) = length w"
  by (induction js arbitrary: w) auto

lemma mask_fold_nth:
  "n \<le> length w \<Longrightarrow> k < length w \<Longrightarrow>
   fold (\<lambda>j s. if P j then s[j := c] else s) [0..<n] w ! k =
     (if k < n \<and> P k then c else w ! k)"
proof (induction n)
  case 0
  then show ?case by simp
next
  case (Suc n)
  then show ?case
    by (auto simp: mask_fold_length nth_list_update)
qed

lemma length_mask_pattern [simp]: "length (mask_pattern w i) = length w"
  by (simp add: mask_pattern_def mask_fold_length)

lemma nth_mask_pattern:
  "j < length w \<Longrightarrow> mask_pattern w i ! j = (if bit i j then CHR ''.'' else w ! j)"
  unfolding mask_pattern_def bit_test_iff by (simp add: mask_fold_nth)

lemma mask_pattern_0 [simp]: "mask_pattern w 0 = w"
  by (rule nth_equalityI) (simp_all add: nth_mask_pattern)

lemma push_bucket_words [simp]: "m_vecWords (push_bucket k w lib) = m_vecWords lib"
  by (simp add: push_bucket_def)

lemma push_bucket_bucket:
  "bucket_of (push_bucket k w lib) k' = (if k' = k then bucket_of lib k @ [w] else bucket_of lib k')"
  by (simp add: push_bucket_def bucket_of_def)

lemma push_bucket_nonempty:
  "m_umapWords (push_bucket k w lib) k' = Some [] \<longleftrightarrow> k' \<noteq> k \<and> m_umapWords lib k' = Some []"
  by (simp add: push_bucket_def)

lemma fold_push_words [simp]:
  "m_vecWords (fold (\<lambda>i. push_bucket (f i) w) js lib) = m_vecWords lib"
  by (induction js arbitrary: lib) simp_all

lemma fold_push_bucket:
  "set (bucket_of (fold (\<lambda>i. push_bucket (f i) w) js lib) k) =
     set (bucket_of lib k) \<union> (if k \<in> f ` set js then {w} else {})"
  by (induction js arbitrary: lib) (auto simp: push_bucket_bucket split: if_splits)

lemma fold_push_nonempty:
  "m_umapWords (fold (\<lambda>i. push_bucket (f i) w) js lib) k = Some [] \<longleftrightarrow>
     k \<notin> f ` set js \<and> m_umapWords lib k = Some []"
  by (induction js arbitrary: lib) (auto simp: push_bucket_nonempty)

lemma lib_inv_new: "lib_inv Library_new"
  by (simp add: lib_inv_def Library_new_def bucket_of_def)

lemma CreatePatternHash_words:
  "CreatePatternHash w lib = Some lib' \<Longrightarrow> m_vecWords lib' = m_vecWords lib"
  by (auto simp: CreatePatternHash_def split: if_splits)

lemma CreatePatternHash_inv:
  assumes "lib_inv lib"
    and "CreatePatternHash w (lib\<lparr>m_vecWords := m_vecWords lib @ [w]\<rparr>) = Some lib'"
  shows "lib_inv lib'"
proof -
  let ?l1 = "lib\<lparr>m_vecWords := m_vecWords lib @ [w]\<rparr>"
  have l': "lib' = fold (\<lambda>i. push_bucket (mask_pattern (word_s w) i) w) [0..<2 ^ word_len w] ?l1"
    using assms(2) by (auto simp: CreatePatternHash_def split: if_splits)
  have b1: "bucket_of ?l1 k = bucket_of lib k" for k
    by (simp add: bucket_of_def)
  have img: "mask_pattern (word_s w) ` set [0..<2 ^ word_len w] = patterns_of w"
    by (simp add: patterns_of_def atLeast0LessThan)
  show ?thesis
    unfolding lib_inv_def
  proof (intro allI conjI)
    fix k
    have "set (bucket_of lib k) = {v \<in> set (m_vecWords lib). k \<in> patterns_of v}"
      using assms(1) by (simp add: lib_inv_def)
    then show "set (bucket_of lib' k) = {v \<in> set (m_vecWords lib'). k \<in> patterns_of v}"
      unfolding l' fold_push_bucket img b1 by auto
    have "m_umapWords lib k \<noteq> Some []"
      using assms(1) by (simp add: lib_inv_def)
    then show "m_umapWords lib' k \<noteq> Some []"
      unfolding l' fold_push_nonempty by simp
  qed
qed

lemma ReadFromFile_inv:
  "lib_inv lib \<Longrightarrow> ReadFromFile f n lib = Some lib' \<Longrightarrow> lib_inv lib'"
proof (induction f arbitrary: lib)
  case Nil
  then show ?case by simp
next
  case (Cons line f)
  then show ?case
    by (auto simp: Let_def split: if_splits bind_splits dest: CreatePatternHash_inv)
qed

text \<open>
  The words a load keeps, in order: the non-empty lines, folded and without the
  character that \<open>strip_last\<close> removes, that are not longer than the converted maximum.
\<close>

definition kept_words :: "string list \<Rightarrow> int \<Rightarrow> string list" where
  "kept_words f n =
     filter (\<lambda>w. int (length w) \<le> size_t_of_int n)
       (map (\<lambda>l. strip_last (ToUpper l)) (filter (\<lambda>l. l \<noteq> []) f))"

lemma ReadFromFile_words:
  "ReadFromFile f n lib = Some lib' \<Longrightarrow>
   m_vecWords lib' = m_vecWords lib @ map Word (kept_words f n)"
proof (induction f arbitrary: lib)
  case Nil
  then show ?case by (simp add: kept_words_def)
next
  case (Cons line f)
  then show ?case
    by (auto simp: Let_def kept_words_def split: if_splits bind_splits
        dest!: CreatePatternHash_words)
qed

lemma ReadFromFile_total:
  "0 \<le> n \<Longrightarrow> n \<le> 30 \<Longrightarrow> \<exists>lib'. ReadFromFile f n lib = Some lib'"
proof (induction f arbitrary: lib)
  case Nil
  then show ?case by simp
next
  case (Cons line f)
  then show ?case
    by (auto simp: Let_def CreatePatternHash_def word_len_def size_t_of_int_def)
qed

lemma lib_inv_bucket:
  "lib_inv lib \<Longrightarrow> set (bucket_of lib k) = {w \<in> set (m_vecWords lib). k \<in> patterns_of w}"
  by (simp add: lib_inv_def)

lemma lib_inv_nonempty: "lib_inv lib \<Longrightarrow> m_umapWords lib k \<noteq> Some []"
  by (simp add: lib_inv_def)

lemma IsWord_iff:
  assumes inv: "lib_inv lib"
  shows "IsWord lib k \<longleftrightarrow> (\<exists>w \<in> set (m_vecWords lib). k \<in> patterns_of w)"
proof -
  have "IsWord lib k \<longleftrightarrow> set (bucket_of lib k) \<noteq> {}"
  proof (cases "m_umapWords lib k")
    case None
    then show ?thesis by (simp add: IsWord_def bucket_of_def)
  next
    case (Some b)
    with lib_inv_nonempty [OF inv, of k] show ?thesis
      by (simp add: IsWord_def bucket_of_def)
  qed
  also have "\<dots> \<longleftrightarrow> (\<exists>w \<in> set (m_vecWords lib). k \<in> patterns_of w)"
    unfolding lib_inv_bucket [OF inv] by auto
  finally show ?thesis .
qed

lemma FindWord_Some:
  "lib_inv lib \<Longrightarrow> FindWord lib k = Some b \<Longrightarrow>
   set b = {w \<in> set (m_vecWords lib). k \<in> patterns_of w}"
proof -
  assume inv: "lib_inv lib" and f: "FindWord lib k = Some b"
  from f have "bucket_of lib k = b" by (simp add: FindWord_def bucket_of_def)
  with lib_inv_bucket [OF inv, of k] show ?thesis by simp
qed

lemma no_dot_pattern:
  assumes "k \<in> patterns_of w" and "CHR ''.'' \<notin> set k"
  shows "k = word_s w"
proof -
  from assms(1) obtain i where k: "k = mask_pattern (word_s w) i"
    by (auto simp: patterns_of_def)
  show ?thesis
  proof (rule nth_equalityI)
    show "length k = length (word_s w)" by (simp add: k)
  next
    fix j assume j: "j < length k"
    then have "k ! j \<noteq> CHR ''.''" using assms(2) by (metis nth_mem)
    with j show "k ! j = word_s w ! j"
      by (auto simp: k nth_mask_pattern split: if_splits)
  qed
qed

lemma self_pattern: "word_s w \<in> patterns_of w"
  unfolding patterns_of_def by (rule image_eqI [where x = 0]) simp_all


text \<open>
  The pattern of a word with the positions of a set replaced by the wildcard, and the
  library after loading the one word \<open>cat\<close>.
\<close>

definition wildcard_at :: "string \<Rightarrow> nat set \<Rightarrow> string" where
  "wildcard_at w S = map (\<lambda>j. if j \<in> S then CHR ''.'' else w ! j) [0..<length w]"

definition cat_lib :: Library where
  "cat_lib = the (ReadFromFile [''cat''] 3 Library_new)"

lemma is_letter_not_dot: "is_letter c \<Longrightarrow> c \<noteq> CHR ''.''"
  by (auto simp: is_letter_def)

lemma mask_pattern_wildcard: "mask_pattern w i = wildcard_at w {j. bit i j}"
  by (rule nth_equalityI) (simp_all add: wildcard_at_def nth_mask_pattern)

lemma wildcard_at_mask: "\<exists>i < 2 ^ length w. mask_pattern w i = wildcard_at w S"
proof -
  let ?bs = "map (\<lambda>j. j \<in> S) [0..<length w]"
  let ?i = "horner_sum of_bool (2::nat) ?bs"
  have "?i < 2 ^ length ?bs" by (rule horner_sum_of_bool_2_less)
  then have lt: "?i < 2 ^ length w" by simp
  have "mask_pattern w ?i = wildcard_at w S"
    by (rule nth_equalityI)
      (simp_all add: wildcard_at_def nth_mask_pattern bit_horner_sum_bit_iff)
  with lt show ?thesis by blast
qed

lemma wildcard_in_patterns: "wildcard_at (word_s w) S \<in> patterns_of w"
proof -
  obtain i where "i < 2 ^ length (word_s w)" "mask_pattern (word_s w) i = wildcard_at (word_s w) S"
    using wildcard_at_mask by blast
  then show ?thesis
    unfolding patterns_of_def word_len_def by (intro image_eqI [where x = i]) simp_all
qed

lemma loaded_inv: "ReadFromFile f n Library_new = Some lib \<Longrightarrow> lib_inv lib"
  using ReadFromFile_inv [OF lib_inv_new] .

lemma bucket_has_word:
  assumes "lib_inv lib" "w \<in> set (m_vecWords lib)" "k \<in> patterns_of w"
  shows "\<exists>b. FindWord lib k = Some b \<and> w \<in> set b"
proof -
  from assms have "w \<in> set (bucket_of lib k)" by (simp add: lib_inv_bucket)
  then show ?thesis
    by (cases "m_umapWords lib k") (simp_all add: bucket_of_def FindWord_def)
qed

lemma FindWord_None:
  assumes "lib_inv lib" "\<forall>w \<in> set (m_vecWords lib). k \<notin> patterns_of w"
  shows "FindWord lib k = None"
proof -
  have "\<not> IsWord lib k" using assms by (simp add: IsWord_iff)
  then show ?thesis by (simp add: IsWord_def FindWord_def)
qed

text \<open>
  C2. After a load from the empty library, every word \<open>w\<close> of the master list is in the
  bucket of each of its masked patterns: for every set \<open>S\<close> of positions the pattern with
  the positions of \<open>S\<close> replaced by the wildcard, and for every bitmask \<open>m\<close> below
  \<open>2 ^ L\<close> the pattern the loop of \<open>CreatePatternHash\<close> builds, is a key whose bucket
  \<open>FindWord\<close> returns with \<open>w\<close> in it; a pattern that is the masked pattern of no
  loaded word is not a key, and \<open>FindWord\<close> returns the null pointer.
\<close>

theorem pattern_index_complete:
  assumes "ReadFromFile f nMaxSize Library_new = Some lib"
    and "w \<in> set (m_vecWords lib)"
  shows "(\<forall>S. \<exists>b. FindWord lib (wildcard_at (word_s w) S) = Some b \<and> w \<in> set b)
    \<and> (\<forall>m < 2 ^ word_len w. \<exists>b. FindWord lib (mask_pattern (word_s w) m) = Some b \<and> w \<in> set b)
    \<and> ((\<forall>v \<in> set (m_vecWords lib). \<forall>m < 2 ^ word_len v. mask_pattern (word_s v) m \<noteq> p)
          \<longrightarrow> FindWord lib p = None)"
proof (intro conjI allI impI)
  note inv = loaded_inv [OF assms(1)]
  show "\<exists>b. FindWord lib (wildcard_at (word_s w) S) = Some b \<and> w \<in> set b" for S
    using bucket_has_word [OF inv assms(2) wildcard_in_patterns] .
  show "\<exists>b. FindWord lib (mask_pattern (word_s w) m) = Some b \<and> w \<in> set b"
    if "m < 2 ^ word_len w" for m
    using that by (intro bucket_has_word [OF inv assms(2)]) (simp add: patterns_of_def)
  show "FindWord lib p = None"
    if "\<forall>v \<in> set (m_vecWords lib). \<forall>m < 2 ^ word_len v. mask_pattern (word_s v) m \<noteq> p"
    using that by (intro FindWord_None [OF inv]) (auto simp: patterns_of_def)
qed

theorem pattern_index_complete_witness:
  "ReadFromFile [''cat''] 3 Library_new = Some cat_lib
   \<and> Word ''CAT'' \<in> set (m_vecWords cat_lib)
   \<and> Word ''CAT'' \<in> set (the (FindWord cat_lib ''C.T''))
   \<and> Word ''CAT'' \<in> set (the (FindWord cat_lib ''...''))
   \<and> FindWord cat_lib ''C.'' = None"
proof -
  have ne: "ReadFromFile [''cat''] 3 Library_new \<noteq> None" by code_simp
  then have h1: "ReadFromFile [''cat''] 3 Library_new = Some cat_lib"
    by (simp add: cat_lib_def)
  have ws: "m_vecWords cat_lib = [Word ''CAT'']"
    unfolding cat_lib_def by code_simp
  have h2: "Word ''CAT'' \<in> set (m_vecWords cat_lib)" by (simp add: ws)
  note th = pattern_index_complete [OF h1 h2, of "''C.''"]
  have p1: "wildcard_at (word_s (Word ''CAT'')) {1} = ''C.T''"
    by (simp add: wildcard_at_def upt_rec)
  have p2: "wildcard_at (word_s (Word ''CAT'')) {0, 1, 2} = ''...''"
    by (simp add: wildcard_at_def upt_rec)
  from th have "\<exists>b. FindWord cat_lib (wildcard_at (word_s (Word ''CAT'')) {1}) = Some b
      \<and> Word ''CAT'' \<in> set b" by blast
  then obtain b1 where "FindWord cat_lib ''C.T'' = Some b1" "Word ''CAT'' \<in> set b1"
    unfolding p1 by blast
  then have c1: "Word ''CAT'' \<in> set (the (FindWord cat_lib ''C.T''))" by simp
  from th have "\<exists>b. FindWord cat_lib (wildcard_at (word_s (Word ''CAT'')) {0, 1, 2}) = Some b
      \<and> Word ''CAT'' \<in> set b" by blast
  then obtain b2 where "FindWord cat_lib ''...'' = Some b2" "Word ''CAT'' \<in> set b2"
    unfolding p2 by blast
  then have c2: "Word ''CAT'' \<in> set (the (FindWord cat_lib ''...''))" by simp
  have "\<forall>v \<in> set (m_vecWords cat_lib). \<forall>m < 2 ^ word_len v. mask_pattern (word_s v) m \<noteq> ''C.''"
  proof (intro ballI allI impI)
    fix v m assume "v \<in> set (m_vecWords cat_lib)"
    then have l3: "length (word_s v) = 3" by (simp add: ws)
    show "mask_pattern (word_s v) m \<noteq> ''C.''"
    proof
      assume "mask_pattern (word_s v) m = ''C.''"
      then have "length (mask_pattern (word_s v) m) = length ''C.''" by (rule arg_cong)
      with l3 show False by simp
    qed
  qed
  with th have c3: "FindWord cat_lib ''C.'' = None" by blast
  from h1 h2 c1 c2 c3 show ?thesis by simp
qed

text \<open>
  C10. \<open>IsWord\<close> is the test that its argument is a key of the pattern index. On a
  library loaded from the empty one, a string of letters only is a key exactly when it is
  a word of the master list; a string with a wildcard can be a key without being a word:
  after loading \<open>CAT\<close>, \<open>IsWord\<close> holds of \<open>.AT\<close>, which is no loaded word.
\<close>

theorem IsWord_letters_only:
  assumes "ReadFromFile f nMaxSize Library_new = Some lib"
  shows "(IsWord lib sWord \<longleftrightarrow> sWord \<in> dom (m_umapWords lib))
    \<and> ((\<forall>c \<in> set sWord. is_letter c) \<longrightarrow>
          (IsWord lib sWord \<longleftrightarrow> Word sWord \<in> set (m_vecWords lib)))
    \<and> IsWord cat_lib ''.AT'' \<and> Word ''.AT'' \<notin> set (m_vecWords cat_lib)"
proof (intro conjI impI)
  note inv = loaded_inv [OF assms]
  show "IsWord lib sWord \<longleftrightarrow> sWord \<in> dom (m_umapWords lib)"
    by (auto simp: IsWord_def)
  show "IsWord lib sWord \<longleftrightarrow> Word sWord \<in> set (m_vecWords lib)"
    if "\<forall>c \<in> set sWord. is_letter c"
  proof
    assume "IsWord lib sWord"
    then obtain w where w: "w \<in> set (m_vecWords lib)" "sWord \<in> patterns_of w"
      by (auto simp: IsWord_iff [OF inv])
    from that have "CHR ''.'' \<notin> set sWord" using is_letter_not_dot by blast
    from no_dot_pattern [OF w(2) this] w(1) show "Word sWord \<in> set (m_vecWords lib)"
      by (cases w) simp
  next
    assume "Word sWord \<in> set (m_vecWords lib)"
    then show "IsWord lib sWord"
      using self_pattern [of "Word sWord"] by (auto simp: IsWord_iff [OF inv])
  qed
  show "IsWord cat_lib ''.AT''" unfolding cat_lib_def by code_simp
  show "Word ''.AT'' \<notin> set (m_vecWords cat_lib)" unfolding cat_lib_def by code_simp
qed

theorem IsWord_letters_only_witness:
  "ReadFromFile [''cat''] 3 Library_new = Some cat_lib
   \<and> IsWord cat_lib ''CAT'' \<and> Word ''CAT'' \<in> set (m_vecWords cat_lib)
   \<and> \<not> IsWord cat_lib ''COT''"
proof -
  have ne: "ReadFromFile [''cat''] 3 Library_new \<noteq> None" by code_simp
  then have h1: "ReadFromFile [''cat''] 3 Library_new = Some cat_lib"
    by (simp add: cat_lib_def)
  have ws: "m_vecWords cat_lib = [Word ''CAT'']"
    unfolding cat_lib_def by code_simp
  have l1: "\<forall>c \<in> set ''CAT''. is_letter c" by (simp add: is_letter_def)
  have l2: "\<forall>c \<in> set ''COT''. is_letter c" by (simp add: is_letter_def)
  from IsWord_letters_only [OF h1, of "''CAT''"]
  have "(\<forall>c \<in> set ''CAT''. is_letter c) \<longrightarrow>
    (IsWord cat_lib ''CAT'' \<longleftrightarrow> Word ''CAT'' \<in> set (m_vecWords cat_lib))" by blast
  with l1 ws have c1: "IsWord cat_lib ''CAT''" by simp
  from IsWord_letters_only [OF h1, of "''COT''"]
  have "(\<forall>c \<in> set ''COT''. is_letter c) \<longrightarrow>
    (IsWord cat_lib ''COT'' \<longleftrightarrow> Word ''COT'' \<in> set (m_vecWords cat_lib))" by blast
  with l2 ws have c2: "\<not> IsWord cat_lib ''COT''" by simp
  from h1 c1 c2 ws show ?thesis by simp
qed

subsection \<open>Span derivation\<close>

lemma Point_eq_iff: "(p::Point) = q \<longleftrightarrow> nRow p = nRow q \<and> nCol p = nCol q"
  by (cases p, cases q) simp

text \<open>
  Both walks of \<^verbatim>\<open>FillSpans\<close> are one walk over lines and offsets: a line is a row and
  an offset a column in the horizontal walk, a line is a column and an offset a row in
  the vertical one.
\<close>

definition line_of :: "bool \<Rightarrow> Point \<Rightarrow> int" where
  "line_of vert p = (if vert then nCol p else nRow p)"

definition off_of :: "bool \<Rightarrow> Point \<Rightarrow> int" where
  "off_of vert p = (if vert then nRow p else nCol p)"

definition mk_point :: "bool \<Rightarrow> int \<Rightarrow> int \<Rightarrow> Point" where
  "mk_point vert l off = (if vert then \<lparr>nRow = off, nCol = l\<rparr> else \<lparr>nRow = l, nCol = off\<rparr>)"

definition nlines :: "Grid \<Rightarrow> bool \<Rightarrow> int" where
  "nlines g vert = (if vert then cols g else rows g)"

definition line_len :: "Grid \<Rightarrow> bool \<Rightarrow> int" where
  "line_len g vert = (if vert then rows g else cols g)"

definition step :: "bool \<Rightarrow> Point \<Rightarrow> int \<Rightarrow> Point" where
  "step vert p k = mk_point vert (line_of vert p) (off_of vert p + k)"

lemma line_mk [simp]: "line_of vert (mk_point vert l off) = l"
  and off_mk [simp]: "off_of vert (mk_point vert l off) = off"
  by (simp_all add: line_of_def off_of_def mk_point_def)

lemma mk_eq_iff: "mk_point vert l off = p \<longleftrightarrow> line_of vert p = l \<and> off_of vert p = off"
  by (auto simp: mk_point_def line_of_def off_of_def Point_eq_iff)

lemma point_eq_dir: "p = q \<longleftrightarrow> line_of vert p = line_of vert q \<and> off_of vert p = off_of vert q"
  by (auto simp: line_of_def off_of_def Point_eq_iff)

lemma step_simps [simp]:
  "line_of vert (step vert p k) = line_of vert p"
  "off_of vert (step vert p k) = off_of vert p + k"
  by (simp_all add: step_def)

lemma IsInBounds_dir:
  "IsInBounds g p \<longleftrightarrow>
     0 \<le> line_of vert p \<and> line_of vert p < nlines g vert \<and>
     0 \<le> off_of vert p \<and> off_of vert p < line_len g vert"
  by (auto simp: IsInBounds_def line_of_def off_of_def nlines_def line_len_def)

lemma NextStopAtWrap_dir:
  "NextStopAtWrap g p vert =
     (if off_of vert p + 1 \<ge> line_len g vert then (False, mk_point vert (line_of vert p + 1) 0)
      else (True, step vert p 1))"
  by (auto simp: NextStopAtWrap_def Let_def off_of_def line_len_def mk_point_def line_of_def
      step_def Point_eq_iff)

lemma Next_dir:
  "snd (Next g p vert) =
     (if off_of vert p + 1 \<ge> line_len g vert then mk_point vert (line_of vert p + 1) 0
      else step vert p 1)"
  by (auto simp: Next_def Let_def off_of_def line_len_def mk_point_def line_of_def
      step_def Point_eq_iff)

lemma GetPoint_dir:
  "GetPoint sp i = (if 0 \<le> i \<and> i < nLen sp then Some (step (bVert sp) (point sp) i) else None)"
  by (auto simp: GetPoint_def step_def mk_point_def line_of_def off_of_def)

text \<open>
  The order in which a walk visits the points: by line, then by offset.
\<close>

definition le_pos :: "bool \<Rightarrow> Point \<Rightarrow> Point \<Rightarrow> bool" where
  "le_pos vert p q \<longleftrightarrow>
     line_of vert p < line_of vert q \<or> (line_of vert p = line_of vert q \<and> off_of vert p \<le> off_of vert q)"

definition lt_pos :: "bool \<Rightarrow> Point \<Rightarrow> Point \<Rightarrow> bool" where
  "lt_pos vert p q \<longleftrightarrow>
     line_of vert p < line_of vert q \<or> (line_of vert p = line_of vert q \<and> off_of vert p < off_of vert q)"


text \<open>
  A wall is a point outside the grid or a block cell. At the head of the outer loop the
  point is at the start of a line or on a block, or it is outside the grid and no cell
  is left to visit.
\<close>

definition wall :: "Grid \<Rightarrow> Point \<Rightarrow> bool" where
  "wall g p \<longleftrightarrow> \<not> IsInBounds g p \<or> IsBlock g p = Some True"

definition head_inv :: "Grid \<Rightarrow> bool \<Rightarrow> Point \<Rightarrow> bool" where
  "head_inv g vert p \<longleftrightarrow>
     (IsInBounds g p \<longrightarrow> off_of vert p = 0 \<or> IsBlock g p = Some True) \<and>
     (\<not> IsInBounds g p \<longrightarrow> (\<forall>q. IsInBounds g q \<longrightarrow> \<not> le_pos vert p q))"

lemma le_pos_refl [simp]: "le_pos vert p p"
  by (simp add: le_pos_def)

lemma le_pos_trans: "le_pos vert p q \<Longrightarrow> le_pos vert q r \<Longrightarrow> le_pos vert p r"
  by (auto simp: le_pos_def)

lemma lt_le_pos_trans: "lt_pos vert p q \<Longrightarrow> le_pos vert q r \<Longrightarrow> lt_pos vert p r"
  by (auto simp: le_pos_def lt_pos_def)

lemma le_lt_pos_trans: "le_pos vert p q \<Longrightarrow> lt_pos vert q r \<Longrightarrow> lt_pos vert p r"
  by (auto simp: le_pos_def lt_pos_def)

lemma lt_pos_imp_le: "lt_pos vert p q \<Longrightarrow> le_pos vert p q"
  by (auto simp: le_pos_def lt_pos_def)

lemma not_lt_pos: "\<not> lt_pos vert q p \<longleftrightarrow> le_pos vert p q"
  by (auto simp: le_pos_def lt_pos_def)

lemma le_pos_cases: "le_pos vert p q \<longleftrightarrow> p = q \<or> lt_pos vert p q"
  by (auto simp: le_pos_def lt_pos_def point_eq_dir [of p q vert])

text \<open>One step of the scan from a cell of the grid.\<close>

lemma Next_props:
  assumes "IsInBounds g p"
  shows "lt_pos vert p (snd (Next g p vert))"
    and "IsInBounds g q \<Longrightarrow> lt_pos vert p q \<Longrightarrow> le_pos vert (snd (Next g p vert)) q"
    and "\<not> IsInBounds g (snd (Next g p vert)) \<Longrightarrow> IsInBounds g q \<Longrightarrow>
         \<not> le_pos vert (snd (Next g p vert)) q"
    and "\<not> IsInBounds g (step vert (snd (Next g p vert)) (- 1)) \<or>
         step vert (snd (Next g p vert)) (- 1) = p"
  using assms
  by (auto simp: Next_dir IsInBounds_dir [of _ _ vert] lt_pos_def le_pos_def
      point_eq_dir [of _ p vert])

lemma NextStopAtWrap_snd: "snd (NextStopAtWrap g p vert) = snd (Next g p vert)"
  by (simp add: NextStopAtWrap_dir Next_dir)

lemma NextStopAtWrap_fst:
  "fst (NextStopAtWrap g p vert) \<longleftrightarrow> off_of vert p + 1 < line_len g vert"
  by (simp add: NextStopAtWrap_dir)

lemma rect_IsBlock:
  assumes "CheckSize g = Some ()" "IsInBounds g p"
  shows "\<exists>b. IsBlock g p = Some b"
proof -
  from assms(2) have r: "nat (nRow p) < length (vecLines g)" and c: "0 \<le> nCol p" "nCol p < cols g"
    by (auto simp: IsInBounds_def rows_def)
  from assms(1) have "\<forall>s \<in> set (vecLines g). int (length s) = cols g"
    by (auto simp: CheckSize_def list_all_iff split: if_splits)
  with r have "int (length (vecLines g ! nat (nRow p))) = cols g" by simp
  with c have "nat (nCol p) < length (vecLines g ! nat (nRow p))" by linarith
  with assms(2) show ?thesis by (simp add: IsBlock_def GetChar_def)
qed

lemma skip_blocks_unfold:
  "skip_blocks g vert p =
     (if IsInBounds g p then
        (case IsBlock g p of
           None \<Rightarrow> None
         | Some b \<Rightarrow> if b then skip_blocks g vert (snd (Next g p vert)) else Some p)
      else Some p)"
  by simp

declare skip_blocks.simps [simp del]

lemma skip_blocks_spec:
  assumes "skip_blocks g vert p = Some p1"
  shows "le_pos vert p p1
    \<and> (\<forall>q. IsInBounds g q \<and> le_pos vert p q \<and> lt_pos vert q p1 \<longrightarrow> IsBlock g q = Some True)
    \<and> (IsInBounds g p1 \<longrightarrow> IsBlock g p1 = Some False)
    \<and> (wall g (step vert p (- 1)) \<or> IsBlock g p = Some True \<longrightarrow> wall g (step vert p1 (- 1)) \<or> \<not> IsInBounds g p1)
    \<and> ((\<not> IsInBounds g p \<longrightarrow> (\<forall>q. IsInBounds g q \<longrightarrow> \<not> le_pos vert p q)) \<longrightarrow>
        \<not> IsInBounds g p1 \<longrightarrow> (\<forall>q. IsInBounds g q \<longrightarrow> \<not> le_pos vert p1 q))"
  using assms
proof (induction g vert p rule: skip_blocks.induct)
  case (1 g vert p)
  show ?case
  proof (cases "IsInBounds g p \<and> IsBlock g p = Some True")
    case False
    with "1.prems" have eq: "p1 = p" and nb: "IsInBounds g p \<longrightarrow> IsBlock g p = Some False"
      by (auto simp: skip_blocks_unfold [of g vert p] split: if_splits option.splits)
    show ?thesis unfolding eq using nb
      by (auto simp: not_lt_pos [symmetric] wall_def)
  next
    case True
    let ?p' = "snd (Next g p vert)"
    from True have inb: "IsInBounds g p" and blk: "IsBlock g p = Some True" by simp_all
    from "1.prems" True have rec: "skip_blocks g vert ?p' = Some p1"
      by (simp add: skip_blocks_unfold [of g vert p])
    note IH = "1.IH" [OF inb blk _ rec, simplified]
    note N = Next_props [OF inb, where vert = vert]
    have a: "le_pos vert p p1"
      using IH N(1) by (meson le_pos_trans lt_pos_imp_le)
    have b: "IsBlock g q = Some True"
      if q: "IsInBounds g q" "le_pos vert p q" "lt_pos vert q p1" for q
    proof (cases "q = p")
      case True
      with blk show ?thesis by simp
    next
      case False
      with q(2) have "lt_pos vert p q" by (simp add: le_pos_cases)
      with N(2) q(1) have "le_pos vert ?p' q" by simp
      with IH q show ?thesis by blast
    qed
    have c: "IsInBounds g p1 \<longrightarrow> IsBlock g p1 = Some False"
      using IH by blast
    have "wall g (step vert ?p' (- 1)) \<or> IsBlock g ?p' = Some True"
      using N(4) blk by (auto simp: wall_def)
    with IH have d: "wall g (step vert p1 (- 1)) \<or> \<not> IsInBounds g p1"
      by blast
    have "\<not> IsInBounds g ?p' \<longrightarrow> (\<forall>q. IsInBounds g q \<longrightarrow> \<not> le_pos vert ?p' q)"
      using N(3) by blast
    with IH have e: "\<not> IsInBounds g p1 \<longrightarrow> (\<forall>q. IsInBounds g q \<longrightarrow> \<not> le_pos vert p1 q)"
      by blast
    from a b c d e show ?thesis by blast
  qed
qed

lemma skip_blocks_total:
  "CheckSize g = Some () \<Longrightarrow> \<exists>p1. skip_blocks g vert p = Some p1"
proof (induction g vert p rule: skip_blocks.induct)
  case (1 g vert p)
  show ?case
  proof (cases "IsInBounds g p")
    case False
    then show ?thesis by (simp add: skip_blocks_unfold [of g vert p])
  next
    case True
    with rect_IsBlock [OF "1.prems"] obtain b where b: "IsBlock g p = Some b" by blast
    show ?thesis
    proof (cases b)
      case True
      with "1.IH" [OF \<open>IsInBounds g p\<close> b _ "1.prems"] \<open>IsInBounds g p\<close> b show ?thesis
        by (simp add: skip_blocks_unfold [of g vert p])
    next
      case False
      with \<open>IsInBounds g p\<close> b show ?thesis by (simp add: skip_blocks_unfold [of g vert p])
    qed
  qed
qed


lemma step_step [simp]: "step vert (step vert p a) b = step vert p (a + b)"
  by (simp add: step_def add.assoc)

lemma step_0 [simp]: "step vert p 0 = p"
  by (simp add: step_def mk_eq_iff)

lemma count_span_unfold:
  "count_span g vert p len =
     (if fst (NextStopAtWrap g p vert) then
        (case IsBlock g (snd (Next g p vert)) of
           None \<Rightarrow> None
         | Some b \<Rightarrow> if \<not> b then count_span g vert (snd (Next g p vert)) (len + 1)
                     else Some (snd (Next g p vert), len + 1))
      else Some (snd (Next g p vert), len + 1))"
  unfolding NextStopAtWrap_snd [symmetric]
  by (simp add: Let_def case_prod_unfold)

declare count_span.simps [simp del]

lemma count_span_spec:
  assumes "IsInBounds g p" "count_span g vert p len = Some (p2, len2)"
  shows "len < len2
    \<and> (\<forall>j. 1 \<le> j \<and> j < len2 - len \<longrightarrow> IsBlock g (step vert p j) = Some False)
    \<and> wall g (step vert p (len2 - len))
    \<and> head_inv g vert p2
    \<and> lt_pos vert p p2
    \<and> (\<forall>q. IsInBounds g q \<and> lt_pos vert p q \<longrightarrow>
          (\<exists>j. 1 \<le> j \<and> j < len2 - len \<and> q = step vert p j) \<or> le_pos vert p2 q)"
  using assms
proof (induction g vert p len rule: count_span.induct)
  case (1 g vert p len)
  let ?p' = "snd (Next g p vert)"
  note inb = "1.prems"(1)
  note N = Next_props [OF inb, where vert = vert]
  show ?case
  proof (cases "fst (NextStopAtWrap g p vert)")
    case False
    with "1.prems"(2) have eq: "p2 = ?p'" "len2 = len + 1"
      by (simp_all add: count_span_unfold [of g vert p])
    from False have "\<not> IsInBounds g (step vert p 1)"
      by (simp add: NextStopAtWrap_fst IsInBounds_dir [of _ _ vert])
    then have w: "wall g (step vert p 1)" by (simp add: wall_def)
    from False have "off_of vert ?p' = 0"
      by (simp add: NextStopAtWrap_fst Next_dir)
    with N(3) have h: "head_inv g vert ?p'" by (auto simp: head_inv_def)
    from w h N(1,2) show ?thesis unfolding eq by auto
  next
    case kg: True
    then have p': "?p' = step vert p 1"
      by (simp add: NextStopAtWrap_fst Next_dir)
    show ?thesis
    proof (cases "IsBlock g ?p'")
      case None
      with kg "1.prems"(2) show ?thesis by (simp add: count_span_unfold [of g vert p])
    next
      case (Some b)
      then have inb': "IsInBounds g ?p'" by (rule IsBlock_in_bounds)
      show ?thesis
      proof (cases b)
        case True
        with Some kg "1.prems"(2) have eq: "p2 = ?p'" "len2 = len + 1"
          by (simp_all add: count_span_unfold [of g vert p])
        from True Some have w: "wall g (step vert p 1)" by (simp add: wall_def p')
        from True Some inb' have h: "head_inv g vert ?p'" by (simp add: head_inv_def)
        from w h N(1,2) show ?thesis unfolding eq by auto
      next
        case False
        with Some kg "1.prems"(2) have rec: "count_span g vert ?p' (len + 1) = Some (p2, len2)"
          by (simp add: count_span_unfold [of g vert p])
        from Some False have blk: "IsBlock g (snd (NextStopAtWrap g p vert)) = Some b" "\<not> b"
          by (simp_all add: NextStopAtWrap_snd)
        have inb'': "IsInBounds g (snd (NextStopAtWrap g p vert))"
          using inb' by (simp add: NextStopAtWrap_snd)
        have rec': "count_span g vert (snd (NextStopAtWrap g p vert)) (len + 1) = Some (p2, len2)"
          using rec by (simp add: NextStopAtWrap_snd)
        note IH0 = "1.IH" [OF refl prod.collapse refl kg blk inb'' rec']
        have IH: "len + 1 < len2"
          "\<And>j. 1 \<le> j \<Longrightarrow> j < len2 - (len + 1) \<Longrightarrow> IsBlock g (step vert ?p' j) = Some False"
          "wall g (step vert ?p' (len2 - (len + 1)))"
          "head_inv g vert p2" "lt_pos vert ?p' p2"
          "\<And>q. IsInBounds g q \<Longrightarrow> lt_pos vert ?p' q \<Longrightarrow>
             (\<exists>j. 1 \<le> j \<and> j < len2 - (len + 1) \<and> q = step vert ?p' j) \<or> le_pos vert p2 q"
          using IH0 unfolding NextStopAtWrap_snd by blast+
        have a: "len < len2" using IH(1) by simp
        have b: "IsBlock g (step vert p j) = Some False" if j: "1 \<le> j" "j < len2 - len" for j
        proof (cases "j = 1")
          case True
          with Some False show ?thesis by (simp add: p')
        next
          case False
          with j have "1 \<le> j - 1" "j - 1 < len2 - (len + 1)" by simp_all
          from IH(2) [OF this] show ?thesis by (simp add: p')
        qed
        have c: "wall g (step vert p (len2 - len))"
          using IH(3) by (simp add: p' algebra_simps)
        have d: "lt_pos vert p p2"
          using N(1) IH(5) by (meson lt_le_pos_trans lt_pos_imp_le)
        have e: "(\<exists>j. 1 \<le> j \<and> j < len2 - len \<and> q = step vert p j) \<or> le_pos vert p2 q"
          if q: "IsInBounds g q" "lt_pos vert p q" for q
        proof -
          from N(2) q have "le_pos vert ?p' q" by simp
          then consider "q = ?p'" | "lt_pos vert ?p' q" by (auto simp: le_pos_cases)
          then show ?thesis
          proof cases
            case 1
            with a IH(1) have "1 \<le> (1::int) \<and> 1 < len2 - len \<and> q = step vert p 1"
              by (simp add: p')
            then show ?thesis by blast
          next
            case 2
            from IH(6) [OF q(1) 2] show ?thesis
            proof
              assume "\<exists>j. 1 \<le> j \<and> j < len2 - (len + 1) \<and> q = step vert ?p' j"
              then obtain j where "1 \<le> j" "j < len2 - (len + 1)" "q = step vert ?p' j" by blast
              then have "1 \<le> j + 1 \<and> j + 1 < len2 - len \<and> q = step vert p (j + 1)"
                by (simp add: p' add.commute)
              then show ?thesis by blast
            qed simp
          qed
        qed
        from a b c d e IH(4) show ?thesis by blast
      qed
    qed
  qed
qed

lemma count_span_total:
  "CheckSize g = Some () \<Longrightarrow> IsInBounds g p \<Longrightarrow> \<exists>r. count_span g vert p len = Some r"
proof (induction g vert p len rule: count_span.induct)
  case (1 g vert p len)
  let ?p' = "snd (Next g p vert)"
  show ?case
  proof (cases "fst (NextStopAtWrap g p vert)")
    case False
    then show ?thesis by (simp add: count_span_unfold [of g vert p])
  next
    case kg: True
    then have "?p' = step vert p 1"
      by (simp add: NextStopAtWrap_fst Next_dir)
    with kg "1.prems"(2) have inb': "IsInBounds g ?p'"
      by (simp add: NextStopAtWrap_fst IsInBounds_dir [of _ _ vert])
    with rect_IsBlock [OF "1.prems"(1)] obtain b where b: "IsBlock g ?p' = Some b" by blast
    show ?thesis
    proof (cases b)
      case True
      with kg b show ?thesis by (simp add: count_span_unfold [of g vert p])
    next
      case False
      from b False have blk: "IsBlock g (snd (NextStopAtWrap g p vert)) = Some b" "\<not> b"
        by (simp_all add: NextStopAtWrap_snd)
      have inb'': "IsInBounds g (snd (NextStopAtWrap g p vert))"
        using inb' by (simp add: NextStopAtWrap_snd)
      from "1.IH" [OF refl prod.collapse refl kg blk "1.prems"(1) inb'']
      show ?thesis using kg b False
        by (simp add: count_span_unfold [of g vert p] NextStopAtWrap_snd)
    qed
  qed
qed


text \<open>
  The cell before the origin of a span and the cell after its end, in the direction of
  the span. A maximal span has at least one cell, all its cells are cells of the grid
  that are not blocks, and walls stand before and after it. A span covers the points of
  its cells. The block map of a grid is its shape with, for every cell, whether it is a
  block.
\<close>

definition before_point :: "Span \<Rightarrow> Point" where
  "before_point sp =
     (if bVert sp then \<lparr>nRow = nRow (point sp) - 1, nCol = nCol (point sp)\<rparr>
      else \<lparr>nRow = nRow (point sp), nCol = nCol (point sp) - 1\<rparr>)"

definition after_point :: "Span \<Rightarrow> Point" where
  "after_point sp =
     (if bVert sp then \<lparr>nRow = nRow (point sp) + nLen sp, nCol = nCol (point sp)\<rparr>
      else \<lparr>nRow = nRow (point sp), nCol = nCol (point sp) + nLen sp\<rparr>)"

definition maximal_span :: "Grid \<Rightarrow> Span \<Rightarrow> bool" where
  "maximal_span g sp \<longleftrightarrow>
     1 \<le> nLen sp
     \<and> (\<forall>i \<in> {0..<nLen sp}. \<exists>p. GetPoint sp i = Some p \<and> IsBlock g p = Some False)
     \<and> wall g (before_point sp) \<and> wall g (after_point sp)"

definition covers :: "Span \<Rightarrow> Point \<Rightarrow> bool" where
  "covers sp q \<longleftrightarrow> (\<exists>i \<in> {0..<nLen sp}. GetPoint sp i = Some q)"

definition block_map :: "Grid \<Rightarrow> bool list list" where
  "block_map g = map (map (\<lambda>c. c = CHR ''#'')) (vecLines g)"

definition spans_from :: "Grid \<Rightarrow> bool \<Rightarrow> Point \<Rightarrow> Span list \<Rightarrow> bool" where
  "spans_from g vert p new \<longleftrightarrow>
     (\<forall>sp \<in> set new. bVert sp = vert \<and> maximal_span g sp \<and> le_pos vert p (point sp))
     \<and> sorted_wrt (\<lambda>a b. lt_pos vert (point a) (point b)) new
     \<and> (\<forall>q. IsBlock g q = Some False \<and> le_pos vert p q \<longrightarrow> (\<exists>sp \<in> set new. covers sp q))"

lemma Span_eq_iff:
  "(a::Span) = b \<longleftrightarrow> point a = point b \<and> nLen a = nLen b \<and> bVert a = bVert b"
  by (cases a, cases b) simp

lemma before_point_step: "before_point sp = step (bVert sp) (point sp) (- 1)"
  by (simp add: before_point_def step_def mk_point_def line_of_def off_of_def)

lemma after_point_step: "after_point sp = step (bVert sp) (point sp) (nLen sp)"
  by (simp add: after_point_def step_def mk_point_def line_of_def off_of_def)

lemma maximal_span_iff:
  "maximal_span g sp \<longleftrightarrow>
     1 \<le> nLen sp
     \<and> (\<forall>i. 0 \<le> i \<and> i < nLen sp \<longrightarrow> IsBlock g (step (bVert sp) (point sp) i) = Some False)
     \<and> wall g (step (bVert sp) (point sp) (- 1))
     \<and> wall g (step (bVert sp) (point sp) (nLen sp))"
  by (auto simp: maximal_span_def GetPoint_dir before_point_step after_point_step)

lemma covers_iff:
  "covers sp q \<longleftrightarrow> (\<exists>i. 0 \<le> i \<and> i < nLen sp \<and> q = step (bVert sp) (point sp) i)"
  by (auto simp: covers_def GetPoint_dir)

lemma FillSpans_loop_unfold:
  "FillSpans_loop g vert p spans =
     (if IsInBounds g p then
        (case skip_blocks g vert p of
           None \<Rightarrow> None
         | Some p1 \<Rightarrow>
             if \<not> IsInBounds g p1 then Some spans
             else
               (case count_span g vert p1 0 of
                  None \<Rightarrow> None
                | Some (p2, len) \<Rightarrow>
                    FillSpans_loop g vert p2 (spans @ [\<lparr>point = p1, nLen = len, bVert = vert\<rparr>])))
      else Some spans)"
  by simp

declare FillSpans_loop.simps [simp del]

lemma FillSpans_loop_spec:
  assumes "head_inv g vert p" "FillSpans_loop g vert p acc = Some res"
  shows "\<exists>new. res = acc @ new \<and> spans_from g vert p new"
  using assms
proof (induction g vert p acc rule: FillSpans_loop.induct)
  case (1 g vert p acc)
  show ?case
  proof (cases "IsInBounds g p")
    case False
    with "1.prems" have "res = acc" by (simp add: FillSpans_loop_unfold [of g vert p])
    moreover have "spans_from g vert p []"
      using False "1.prems"(1) by (auto simp: spans_from_def head_inv_def dest: IsBlock_in_bounds)
    ultimately show ?thesis by simp
  next
    case inb: True
    with "1.prems"(2) obtain p1 where sk: "skip_blocks g vert p = Some p1"
      by (auto simp: FillSpans_loop_unfold [of g vert p] split: option.splits)
    have pw: "wall g (step vert p (- 1)) \<or> IsBlock g p = Some True"
      using "1.prems"(1) inb by (auto simp: head_inv_def wall_def IsInBounds_dir [of _ _ vert])
    from skip_blocks_spec [OF sk] pw inb
    have S: "le_pos vert p p1"
      "\<And>q. IsInBounds g q \<Longrightarrow> le_pos vert p q \<Longrightarrow> lt_pos vert q p1 \<Longrightarrow> IsBlock g q = Some True"
      "IsInBounds g p1 \<Longrightarrow> IsBlock g p1 = Some False"
      "IsInBounds g p1 \<Longrightarrow> wall g (step vert p1 (- 1))"
      "\<not> IsInBounds g p1 \<Longrightarrow> IsInBounds g q \<Longrightarrow> \<not> le_pos vert p1 q" for q
      by blast+
    show ?thesis
    proof (cases "IsInBounds g p1")
      case False
      with "1.prems"(2) inb sk have "res = acc" by (simp add: FillSpans_loop_unfold [of g vert p])
      moreover have "spans_from g vert p []"
        unfolding spans_from_def
      proof (intro conjI allI impI)
        fix q assume q: "IsBlock g q = Some False \<and> le_pos vert p q"
        then have qb: "IsInBounds g q" by (auto dest: IsBlock_in_bounds)
        from S(5) [OF False qb] have "lt_pos vert q p1" by (simp add: not_lt_pos [symmetric])
        from S(2) [OF qb _ this] q show "\<exists>sp \<in> set []. covers sp q" by simp
      qed simp_all
      ultimately show ?thesis by simp
    next
      case inb1: True
      with "1.prems"(2) inb sk obtain p2 len where
        cs: "count_span g vert p1 0 = Some (p2, len)"
        by (auto simp: FillSpans_loop_unfold [of g vert p] split: option.splits)
      let ?sp = "\<lparr>point = p1, nLen = len, bVert = vert\<rparr>"
      from "1.prems"(2) inb sk inb1 cs
      have rec: "FillSpans_loop g vert p2 (acc @ [?sp]) = Some res"
        by (simp add: FillSpans_loop_unfold [of g vert p])
      from count_span_spec [OF inb1 cs]
      have C: "0 < len"
        "\<And>j. 1 \<le> j \<Longrightarrow> j < len \<Longrightarrow> IsBlock g (step vert p1 j) = Some False"
        "wall g (step vert p1 len)" "head_inv g vert p2" "lt_pos vert p1 p2"
        "\<And>q. IsInBounds g q \<Longrightarrow> lt_pos vert p1 q \<Longrightarrow>
           (\<exists>j. 1 \<le> j \<and> j < len \<and> q = step vert p1 j) \<or> le_pos vert p2 q"
        by simp_all
      have "\<not> \<not> IsInBounds g p1" using inb1 by simp
      from "1.IH" [OF inb sk this cs refl C(4) rec]
      obtain new where new: "res = (acc @ [?sp]) @ new" "spans_from g vert p2 new" by blast
      have cell: "IsBlock g (step vert p1 i) = Some False" if "0 \<le> i" "i < len" for i
      proof (cases "i = 0")
        case True
        with S(3) [OF inb1] show ?thesis by simp
      next
        case False
        with that C(2) [of i] show ?thesis by simp
      qed
      have msp: "maximal_span g ?sp"
        using C(1,3) S(4) [OF inb1] cell by (simp add: maximal_span_iff)
      have "spans_from g vert p (?sp # new)"
        unfolding spans_from_def
      proof (intro conjI)
        show "\<forall>sp \<in> set (?sp # new).
          bVert sp = vert \<and> maximal_span g sp \<and> le_pos vert p (point sp)"
        proof
        fix sp assume "sp \<in> set (?sp # new)"
        then consider "sp = ?sp" | "sp \<in> set new" by auto
        then show "bVert sp = vert \<and> maximal_span g sp \<and> le_pos vert p (point sp)"
        proof cases
          case 1
          with msp S(1) show ?thesis by simp
        next
          case 2
          with new(2) have "bVert sp = vert" "maximal_span g sp" "le_pos vert p2 (point sp)"
            by (auto simp: spans_from_def)
          moreover from S(1) C(5) this(3) have "le_pos vert p (point sp)"
            by (meson le_pos_trans lt_pos_imp_le)
          ultimately show ?thesis by simp
        qed
        qed
      next
        have "lt_pos vert p1 (point sp)" if "sp \<in> set new" for sp
        proof -
          from new(2) that have "le_pos vert p2 (point sp)" by (auto simp: spans_from_def)
          with C(5) show ?thesis by (rule lt_le_pos_trans)
        qed
        moreover from new(2) have "sorted_wrt (\<lambda>a b. lt_pos vert (point a) (point b)) new"
          by (simp add: spans_from_def)
        ultimately show "sorted_wrt (\<lambda>a b. lt_pos vert (point a) (point b)) (?sp # new)"
          by simp
      next
        show "\<forall>q. IsBlock g q = Some False \<and> le_pos vert p q \<longrightarrow>
          (\<exists>sp \<in> set (?sp # new). covers sp q)"
        proof (intro allI impI)
        fix q assume q: "IsBlock g q = Some False \<and> le_pos vert p q"
        then have qb: "IsInBounds g q" by (auto dest: IsBlock_in_bounds)
        have "\<not> lt_pos vert q p1" using S(2) [OF qb] q by auto
        then have "le_pos vert p1 q" by (simp add: not_lt_pos)
        then consider "q = p1" | "lt_pos vert p1 q" by (auto simp: le_pos_cases)
        then show "\<exists>sp \<in> set (?sp # new). covers sp q"
        proof cases
          case 1
          with C(1) have "covers ?sp q" by (auto simp: covers_iff intro: exI [of _ 0])
          then show ?thesis by simp
        next
          case 2
          from C(6) [OF qb 2] show ?thesis
          proof
            assume "\<exists>j. 1 \<le> j \<and> j < len \<and> q = step vert p1 j"
            then obtain j where "0 \<le> j \<and> j < len \<and> q = step vert p1 j" by force
            then have "covers ?sp q" unfolding covers_iff by (intro exI [of _ j]) simp
            then show ?thesis by simp
          next
            assume "le_pos vert p2 q"
            with new(2) q have "\<exists>sp \<in> set new. covers sp q" by (auto simp: spans_from_def)
            then show ?thesis by auto
          qed
        qed
        qed
      qed
      with new(1) show ?thesis by simp
    qed
  qed
qed

lemma FillSpans_loop_total:
  "CheckSize g = Some () \<Longrightarrow> \<exists>res. FillSpans_loop g vert p acc = Some res"
proof (induction g vert p acc rule: FillSpans_loop.induct)
  case (1 g vert p acc)
  show ?case
  proof (cases "IsInBounds g p")
    case False
    then show ?thesis by (simp add: FillSpans_loop_unfold [of g vert p])
  next
    case inb: True
    from skip_blocks_total [OF "1.prems"] obtain p1 where sk: "skip_blocks g vert p = Some p1"
      by blast
    show ?thesis
    proof (cases "IsInBounds g p1")
      case False
      with inb sk show ?thesis by (simp add: FillSpans_loop_unfold [of g vert p])
    next
      case inb1: True
      from count_span_total [OF "1.prems" inb1] obtain p2 len where
        cs: "count_span g vert p1 0 = Some (p2, len)" by fastforce
      have "\<not> \<not> IsInBounds g p1" using inb1 by simp
      from "1.IH" [OF inb sk this cs refl "1.prems"] inb sk inb1 cs show ?thesis
        by (simp add: FillSpans_loop_unfold [of g vert p])
    qed
  qed
qed


text \<open>What the scan reads of a grid is its shape and where its blocks are.\<close>

lemma rows_block_map: "rows g = int (length (block_map g))"
  by (simp add: rows_def block_map_def)

lemma cols_block_map:
  "cols g = (if block_map g \<noteq> [] then int (length (block_map g ! 0)) else 0)"
  by (cases "vecLines g") (simp_all add: cols_def block_map_def)

lemma IsBlock_block_map:
  "IsBlock g p =
     (if IsInBounds g p then
        (let l = block_map g ! nat (nRow p) in
         if nat (nCol p) < length l then Some (l ! nat (nCol p)) else None)
      else None)"
  by (auto simp: IsBlock_def GetChar_def block_map_def IsInBounds_def rows_def Let_def)

lemma block_map_cong:
  assumes "block_map g = block_map h"
  shows "rows g = rows h" "cols g = cols h" "IsInBounds g = IsInBounds h"
    "IsBlock g = IsBlock h" "Next g = Next h" "NextStopAtWrap g = NextStopAtWrap h"
proof -
  show r: "rows g = rows h" and c: "cols g = cols h"
    using assms by (simp_all add: rows_block_map cols_block_map)
  then show b: "IsInBounds g = IsInBounds h"
    by (auto simp: IsInBounds_def fun_eq_iff)
  show "IsBlock g = IsBlock h"
    by (rule ext) (simp add: IsBlock_block_map b assms)
  show "Next g = Next h"
    by (intro ext) (simp add: Next_def r c b)
  show "NextStopAtWrap g = NextStopAtWrap h"
    by (intro ext) (simp add: NextStopAtWrap_def r c)
qed

lemma skip_blocks_cong:
  "block_map g = block_map h \<Longrightarrow> skip_blocks g vert p = skip_blocks h vert p"
proof (induction g vert p rule: skip_blocks.induct)
  case (1 g vert p)
  note bm = block_map_cong [OF "1.prems"]
  show ?case
  proof (cases "IsInBounds g p \<and> IsBlock g p = Some True")
    case True
    then have "skip_blocks g vert (snd (Next g p vert)) = skip_blocks h vert (snd (Next g p vert))"
      using "1.IH" "1.prems" by simp
    with True show ?thesis
      by (simp add: skip_blocks_unfold [of g vert p] skip_blocks_unfold [of h vert p] bm [symmetric])
  next
    case False
    then show ?thesis
      by (auto simp: skip_blocks_unfold [of g vert p] skip_blocks_unfold [of h vert p]
          bm [symmetric] split: option.splits)
  qed
qed

lemma count_span_cong:
  "block_map g = block_map h \<Longrightarrow> count_span g vert p len = count_span h vert p len"
proof (induction g vert p len rule: count_span.induct)
  case (1 g vert p len)
  note bm = block_map_cong [OF "1.prems"]
  let ?p' = "snd (Next g p vert)"
  show ?case
  proof (cases "fst (NextStopAtWrap g p vert) \<and> IsBlock g ?p' = Some False")
    case True
    then have "fst (NextStopAtWrap g p vert)"
      "IsBlock g (snd (NextStopAtWrap g p vert)) = Some False"
      by (simp_all add: NextStopAtWrap_snd)
    from "1.IH" [OF refl prod.collapse refl this(1) this(2) _ "1.prems"]
    have "count_span g vert ?p' (len + 1) = count_span h vert ?p' (len + 1)"
      by (simp add: NextStopAtWrap_snd)
    with True show ?thesis
      by (simp add: count_span_unfold [of g vert p] count_span_unfold [of h vert p] bm [symmetric])
  next
    case False
    then show ?thesis
      by (auto simp: count_span_unfold [of g vert p] count_span_unfold [of h vert p]
          bm [symmetric] split: option.splits)
  qed
qed

lemma FillSpans_loop_cong:
  "block_map g = block_map h \<Longrightarrow> FillSpans_loop g vert p acc = FillSpans_loop h vert p acc"
proof (induction g vert p acc rule: FillSpans_loop.induct)
  case (1 g vert p acc)
  note bm = block_map_cong [OF "1.prems"]
  note sk = skip_blocks_cong [OF "1.prems"] and cs = count_span_cong [OF "1.prems"]
  show ?case
  proof (cases "IsInBounds g p")
    case False
    then show ?thesis
      by (simp add: FillSpans_loop_unfold [of g vert p] FillSpans_loop_unfold [of h vert p]
          bm [symmetric])
  next
    case inb: True
    show ?thesis
    proof (cases "skip_blocks g vert p")
      case None
      with inb show ?thesis
        by (simp add: FillSpans_loop_unfold [of g vert p] FillSpans_loop_unfold [of h vert p]
            bm [symmetric] sk [symmetric])
    next
      case (Some p1)
      show ?thesis
      proof (cases "IsInBounds g p1")
        case False
        with inb Some show ?thesis
          by (simp add: FillSpans_loop_unfold [of g vert p] FillSpans_loop_unfold [of h vert p]
              bm [symmetric] sk [symmetric])
      next
        case inb1: True
        show ?thesis
        proof (cases "count_span g vert p1 0")
          case None
          with inb Some inb1 show ?thesis
            by (simp add: FillSpans_loop_unfold [of g vert p] FillSpans_loop_unfold [of h vert p]
                bm [symmetric] sk [symmetric] cs [symmetric])
        next
          case (Some r)
          obtain p2 len where r: "r = (p2, len)" by (cases r)
          have "\<not> \<not> IsInBounds g p1" using inb1 by simp
          from "1.IH" [OF inb \<open>skip_blocks g vert p = Some p1\<close> this Some [unfolded r] refl "1.prems"]
          show ?thesis using inb \<open>skip_blocks g vert p = Some p1\<close> inb1 Some r
            by (simp add: FillSpans_loop_unfold [of g vert p] FillSpans_loop_unfold [of h vert p]
                bm [symmetric] sk [symmetric] cs [symmetric])
        qed
      qed
    qed
  qed
qed

lemma block_map_vecSpans [simp]: "block_map (g\<lparr>vecSpans := x\<rparr>) = block_map g"
  by (simp add: block_map_def)

lemma CheckSize_cong:
  "block_map g = block_map h \<Longrightarrow> CheckSize g = CheckSize h"
proof -
  assume bm: "block_map g = block_map h"
  have "CheckSize g = (if list_all (\<lambda>l. int (length l) = cols g) (block_map g) then Some () else None)" for g
    by (simp add: CheckSize_def block_map_def list_all_iff)
  then show ?thesis using bm block_map_cong(2) [OF bm] by simp
qed

lemma head_inv_origin: "head_inv g vert Point_new"
proof -
  have "IsInBounds g Point_new" if "IsInBounds g q" for q
    using that by (auto simp: IsInBounds_def Point_new_def)
  then show ?thesis
    by (auto simp: head_inv_def Point_new_def off_of_def)
qed

lemma le_pos_origin: "IsInBounds g q \<Longrightarrow> le_pos vert Point_new q"
  by (auto simp: IsInBounds_def Point_new_def le_pos_def line_of_def off_of_def)

lemma open_not_wall: "IsBlock g p = Some False \<Longrightarrow> \<not> wall g p"
  by (auto simp: wall_def dest: IsBlock_in_bounds)

lemma maximal_span_unique:
  assumes a: "maximal_span g a" and b: "maximal_span g b" and v: "bVert a = bVert b"
    and ca: "covers a q" and cb: "covers b q"
  shows "a = b"
proof -
  let ?v = "bVert a"
  from ca obtain i where i: "0 \<le> i" "i < nLen a" "q = step ?v (point a) i"
    by (auto simp: covers_iff)
  from cb obtain j where j: "0 \<le> j" "j < nLen b" "q = step ?v (point b) j"
    by (auto simp: covers_iff v)
  from i(3) j(3) have ln: "line_of ?v (point a) = line_of ?v (point b)"
    and off: "off_of ?v (point a) + i = off_of ?v (point b) + j"
    by (auto simp: point_eq_dir [of _ _ ?v])
  have open_a: "\<not> wall g (step ?v (point a) k)" if "0 \<le> k" "k < nLen a" for k
    using a that by (intro open_not_wall) (simp add: maximal_span_iff)
  have open_b: "\<not> wall g (step ?v (point b) k)" if "0 \<le> k" "k < nLen b" for k
    using b that by (intro open_not_wall) (simp add: maximal_span_iff v)
  have wa: "wall g (step ?v (point a) (- 1))" "wall g (step ?v (point a) (nLen a))"
    using a by (auto simp: maximal_span_iff)
  have wb: "wall g (step ?v (point b) (- 1))" "wall g (step ?v (point b) (nLen b))"
    using b by (auto simp: maximal_span_iff v)
  have same: "step ?v (point a) k = step ?v (point b) (k + off_of ?v (point a) - off_of ?v (point b))" for k
    using ln by (simp add: point_eq_dir [of _ _ ?v])
  have o: "off_of ?v (point a) = off_of ?v (point b)"
  proof (rule ccontr)
    assume "off_of ?v (point a) \<noteq> off_of ?v (point b)"
    then consider "off_of ?v (point a) < off_of ?v (point b)" | "off_of ?v (point b) < off_of ?v (point a)"
      by linarith
    then show False
    proof cases
      case 1
      let ?k = "off_of ?v (point b) - 1 - off_of ?v (point a)"
      have "step ?v (point b) (- 1) = step ?v (point a) ?k"
        using ln by (simp add: point_eq_dir [of _ _ ?v])
      moreover have "0 \<le> ?k" "?k < nLen a" using 1 off i j by linarith+
      ultimately show False using open_a [of ?k] wb(1) by simp
    next
      case 2
      let ?k = "off_of ?v (point a) - 1 - off_of ?v (point b)"
      have "step ?v (point a) (- 1) = step ?v (point b) ?k"
        using ln by (simp add: point_eq_dir [of _ _ ?v])
      moreover have "0 \<le> ?k" "?k < nLen b" using 2 off i j by linarith+
      ultimately show False using open_b [of ?k] wa(1) by simp
    qed
  qed
  with ln have pt: "point a = point b" by (simp add: point_eq_dir [of _ _ ?v])
  have "nLen a = nLen b"
  proof (rule ccontr)
    assume "nLen a \<noteq> nLen b"
    then consider "nLen a < nLen b" | "nLen b < nLen a" by linarith
    then show False
    proof cases
      case 1
      with a have "0 \<le> nLen a" "nLen a < nLen b" by (auto simp: maximal_span_iff)
      from open_b [OF this] wa(2) show False by (simp add: pt)
    next
      case 2
      with b have "0 \<le> nLen b" "nLen b < nLen a" by (auto simp: maximal_span_iff)
      from open_a [OF this] wb(2) show False by (simp add: pt)
    qed
  qed
  with pt v show ?thesis by (simp add: Span_eq_iff)
qed


text \<open>
  Row-major and column-major order of points, and a grid of three rows for a witness.
\<close>

definition row_major_before :: "Point \<Rightarrow> Point \<Rightarrow> bool" where
  "row_major_before a b \<longleftrightarrow> nRow a < nRow b \<or> (nRow a = nRow b \<and> nCol a < nCol b)"

definition col_major_before :: "Point \<Rightarrow> Point \<Rightarrow> bool" where
  "col_major_before a b \<longleftrightarrow> nCol a < nCol b \<or> (nCol a = nCol b \<and> nRow a < nRow b)"

definition grid3 :: Grid where
  "grid3 = LoadFromFile [''..#'', ''A.B'', ''#..''] (Grid_new ''0'')"

lemma lt_pos_major: "lt_pos False = row_major_before" "lt_pos True = col_major_before"
  by (auto simp: lt_pos_def row_major_before_def col_major_before_def line_of_def off_of_def
      fun_eq_iff)

lemma spans_from_cong:
  assumes "block_map g = block_map h"
  shows "spans_from g vert p new = spans_from h vert p new"
proof -
  note bm = block_map_cong [OF assms]
  have "wall g = wall h" by (simp add: wall_def fun_eq_iff bm)
  then have "maximal_span g = maximal_span h"
    by (simp add: maximal_span_def fun_eq_iff bm)
  then show ?thesis by (simp add: spans_from_def bm)
qed

lemma FillSpans_dir_spec:
  assumes "CheckSize g = Some ()"
  shows "\<exists>new. FillSpans_dir vert g = Some (g\<lparr>vecSpans := vecSpans g @ new\<rparr>)
    \<and> spans_from g vert Point_new new"
proof -
  from FillSpans_loop_total [OF assms] obtain res where
    res: "FillSpans_loop g vert Point_new (vecSpans g) = Some res" by blast
  from FillSpans_loop_spec [OF head_inv_origin res] obtain new where
    "res = vecSpans g @ new" "spans_from g vert Point_new new" by blast
  with res show ?thesis by (auto simp: FillSpans_dir_def)
qed

lemma FillSpans_spec:
  assumes "CheckSize g = Some ()" "vecSpans g = []"
  shows "\<exists>hs vs. FillSpans g = Some (g\<lparr>vecSpans := hs @ vs\<rparr>)
    \<and> spans_from g False Point_new hs \<and> spans_from g True Point_new vs"
proof -
  from FillSpans_dir_spec [OF assms(1), of False] assms(2) obtain hs where
    hs: "FillSpans_dir False g = Some (g\<lparr>vecSpans := hs\<rparr>)" "spans_from g False Point_new hs"
    by auto
  let ?g1 = "g\<lparr>vecSpans := hs\<rparr>"
  have bm: "block_map ?g1 = block_map g" by simp
  have "CheckSize ?g1 = Some ()" using assms(1) CheckSize_cong [OF bm] by simp
  from FillSpans_dir_spec [OF this, of True] obtain vs where
    vs: "FillSpans_dir True ?g1 = Some (g\<lparr>vecSpans := hs @ vs\<rparr>)" "spans_from ?g1 True Point_new vs"
    by auto
  from vs(2) have "spans_from g True Point_new vs" by (simp add: spans_from_cong [OF bm])
  with hs vs(1) assms(2) show ?thesis by (auto simp: FillSpans_def)
qed

lemma FillSpans_cong:
  assumes "block_map h = block_map g" "vecSpans h = []" "vecSpans g = []"
  shows "map_option vecSpans (FillSpans h) = map_option vecSpans (FillSpans g)"
proof -
  have d: "FillSpans_dir vert (a\<lparr>vecSpans := x\<rparr>) =
      map_option (\<lambda>spans. a\<lparr>vecSpans := spans\<rparr>) (FillSpans_loop a vert Point_new x)" for vert a x
    using FillSpans_loop_cong [of "a\<lparr>vecSpans := x\<rparr>" a vert Point_new x]
    by (simp add: FillSpans_dir_def)
  have e: "FillSpans a = do { hs \<leftarrow> FillSpans_loop a False Point_new [];
      vs \<leftarrow> FillSpans_loop a True Point_new hs; Some (a\<lparr>vecSpans := vs\<rparr>) }"
    if "vecSpans a = []" for a
  proof -
    have "FillSpans_dir False a = map_option (\<lambda>spans. a\<lparr>vecSpans := spans\<rparr>)
        (FillSpans_loop a False Point_new [])"
      using that by (simp add: FillSpans_dir_def)
    then show ?thesis using that
      by (cases "FillSpans_loop a False Point_new []")
        (auto simp: FillSpans_def d split: bind_splits)
  qed
  show ?thesis
    unfolding e [OF assms(2)] e [OF assms(3)] FillSpans_loop_cong [OF assms(1)]
    by (auto split: bind_splits)
qed

text \<open>
  C7. On a rectangular grid with no spans yet, span derivation returns, leaves the cells
  as they are, and lists the horizontal spans \<open>hs\<close> followed by the vertical spans
  \<open>vs\<close>. Every listed span has length at least 1, each of its cells is a cell of the
  grid that is not a block, and the cell before its origin and the cell after its end are
  outside the grid or blocks. The horizontal spans are in strictly increasing row-major
  order of their origins, the vertical ones in column-major order, and every maximal run
  of the grid is listed. The list is the same for any grid with the same shape and the
  same block cells.
\<close>

theorem FillSpans_maximal_runs:
  assumes "CheckSize g = Some ()" and "vecSpans g = []"
  shows "\<exists>hs vs. FillSpans g = Some (g\<lparr>vecSpans := hs @ vs\<rparr>)
    \<and> (\<forall>sp \<in> set (hs @ vs). maximal_span g sp)
    \<and> (\<forall>sp \<in> set hs. \<not> bVert sp) \<and> (\<forall>sp \<in> set vs. bVert sp)
    \<and> sorted_wrt (\<lambda>a b. row_major_before (point a) (point b)) hs
    \<and> sorted_wrt (\<lambda>a b. col_major_before (point a) (point b)) vs
    \<and> (\<forall>sp. maximal_span g sp \<longrightarrow> sp \<in> set (hs @ vs))
    \<and> (\<forall>h. block_map h = block_map g \<and> vecSpans h = [] \<longrightarrow>
          map_option vecSpans (FillSpans h) = Some (hs @ vs))"
proof -
  from FillSpans_spec [OF assms] obtain hs vs where
    F: "FillSpans g = Some (g\<lparr>vecSpans := hs @ vs\<rparr>)"
    and H: "spans_from g False Point_new hs" and V: "spans_from g True Point_new vs"
    by blast
  have 1: "\<forall>sp \<in> set (hs @ vs). maximal_span g sp"
    using H V by (auto simp: spans_from_def)
  have 2: "(\<forall>sp \<in> set hs. \<not> bVert sp) \<and> (\<forall>sp \<in> set vs. bVert sp)"
    using H V by (auto simp: spans_from_def)
  have 3: "sorted_wrt (\<lambda>a b. row_major_before (point a) (point b)) hs"
    using H by (simp add: spans_from_def lt_pos_major)
  have 4: "sorted_wrt (\<lambda>a b. col_major_before (point a) (point b)) vs"
    using V by (simp add: spans_from_def lt_pos_major)
  have 5: "sp \<in> set (hs @ vs)" if m: "maximal_span g sp" for sp
  proof -
    from m have o: "IsBlock g (point sp) = Some False" and c: "covers sp (point sp)"
      by (auto simp: maximal_span_iff covers_iff intro: exI [of _ 0])
    from o have le: "le_pos (bVert sp) Point_new (point sp)"
      by (intro le_pos_origin) (rule IsBlock_in_bounds)
    have "\<exists>sp' \<in> set (hs @ vs). bVert sp' = bVert sp \<and> maximal_span g sp' \<and> covers sp' (point sp)"
    proof (cases "bVert sp")
      case True
      with V o le show ?thesis unfolding spans_from_def by (metis Un_iff set_append)
    next
      case False
      with H o le show ?thesis unfolding spans_from_def by (metis Un_iff set_append)
    qed
    then obtain sp' where sp': "sp' \<in> set (hs @ vs)" "bVert sp' = bVert sp"
      "maximal_span g sp'" "covers sp' (point sp)" by blast
    from maximal_span_unique [OF sp'(3) m sp'(2) sp'(4) c] sp'(1) show ?thesis by simp
  qed
  have 6: "map_option vecSpans (FillSpans h) = Some (hs @ vs)"
    if "block_map h = block_map g \<and> vecSpans h = []" for h
    using FillSpans_cong [of h g] that assms(2) F by simp
  from F 1 2 3 4 5 6 show ?thesis by blast
qed

theorem FillSpans_maximal_runs_witness:
  "CheckSize grid3 = Some () \<and> vecSpans grid3 = []
   \<and> map_option vecSpans (FillSpans grid3) =
       Some [\<lparr>point = \<lparr>nRow = 0, nCol = 0\<rparr>, nLen = 2, bVert = False\<rparr>,
             \<lparr>point = \<lparr>nRow = 1, nCol = 0\<rparr>, nLen = 3, bVert = False\<rparr>,
             \<lparr>point = \<lparr>nRow = 2, nCol = 1\<rparr>, nLen = 2, bVert = False\<rparr>,
             \<lparr>point = \<lparr>nRow = 0, nCol = 0\<rparr>, nLen = 2, bVert = True\<rparr>,
             \<lparr>point = \<lparr>nRow = 0, nCol = 1\<rparr>, nLen = 3, bVert = True\<rparr>,
             \<lparr>point = \<lparr>nRow = 1, nCol = 2\<rparr>, nLen = 2, bVert = True\<rparr>]
   \<and> maximal_span grid3 \<lparr>point = \<lparr>nRow = 1, nCol = 0\<rparr>, nLen = 3, bVert = False\<rparr>"
proof -
  have h1: "CheckSize grid3 = Some ()" unfolding grid3_def by code_simp
  have h2: "vecSpans grid3 = []" unfolding grid3_def by code_simp
  have ev: "map_option vecSpans (FillSpans grid3) =
       Some [\<lparr>point = \<lparr>nRow = 0, nCol = 0\<rparr>, nLen = 2, bVert = False\<rparr>,
             \<lparr>point = \<lparr>nRow = 1, nCol = 0\<rparr>, nLen = 3, bVert = False\<rparr>,
             \<lparr>point = \<lparr>nRow = 2, nCol = 1\<rparr>, nLen = 2, bVert = False\<rparr>,
             \<lparr>point = \<lparr>nRow = 0, nCol = 0\<rparr>, nLen = 2, bVert = True\<rparr>,
             \<lparr>point = \<lparr>nRow = 0, nCol = 1\<rparr>, nLen = 3, bVert = True\<rparr>,
             \<lparr>point = \<lparr>nRow = 1, nCol = 2\<rparr>, nLen = 2, bVert = True\<rparr>]"
    unfolding grid3_def by code_simp
  from FillSpans_maximal_runs [OF h1 h2] obtain hs vs where
    F: "FillSpans grid3 = Some (grid3\<lparr>vecSpans := hs @ vs\<rparr>)"
    and M: "\<forall>sp \<in> set (hs @ vs). maximal_span grid3 sp" by blast
  from F ev have "\<lparr>point = \<lparr>nRow = 1, nCol = 0\<rparr>, nLen = 3, bVert = False\<rparr> \<in> set (hs @ vs)"
    by simp
  with M have "maximal_span grid3 \<lparr>point = \<lparr>nRow = 1, nCol = 0\<rparr>, nLen = 3, bVert = False\<rparr>"
    by blast
  with h1 h2 ev show ?thesis by simp
qed

subsection \<open>Loading the dictionary and the grid\<close>

text \<open>
  The character that \<open>strip_last\<close> removes is none of the letters that \<open>toupper\<close>
  changes or gives.
\<close>

definition is_trailing :: "char \<Rightarrow> bool" where
  "is_trailing c \<longleftrightarrow> c = CHR 0x0D \<or> c = CHR '' '' \<or> c = CHR 0x09"

lemma is_trailing_toupper: "is_trailing (toupper c) = is_trailing c"
  by (auto simp: is_trailing_def toupper_def Let_def char_of_eq_iff take_bit_eq_mod)

lemma strip_last_snoc:
  "strip_last (ToUpper (w @ [c])) = (if is_trailing c then ToUpper w else ToUpper (w @ [c]))"
proof -
  have "ToUpper (w @ [c]) ! (length (ToUpper (w @ [c])) - 1) = toupper c"
    by (simp add: ToUpper_map nth_append)
  then show ?thesis
    unfolding strip_last_def Let_def
    using is_trailing_toupper [of c] by (simp add: is_trailing_def ToUpper_map)
qed

text \<open>The words one line contributes to the load.\<close>

lemma kept_words_concat: "kept_words f n = concat (map (\<lambda>l. kept_words [l] n) f)"
  by (induction f) (simp_all add: kept_words_def)

lemma kept_words_line:
  assumes "0 \<le> n" "w \<noteq> []" "\<not> is_trailing (last w)" "t = [] \<or> (\<exists>c. t = [c] \<and> is_trailing c)"
  shows "kept_words [w @ t] n = (if int (length w) \<le> n then [ToUpper w] else [])"
proof -
  from assms(2) obtain v d where w: "w = v @ [d]" by (cases w rule: rev_cases) auto
  with assms(3) have d: "\<not> is_trailing d" by simp
  have "strip_last (ToUpper (w @ t)) = ToUpper w"
  proof (cases "t = []")
    case True
    with d show ?thesis unfolding w by (simp add: strip_last_snoc)
  next
    case False
    with assms(4) obtain c where "t = [c]" "is_trailing c" by auto
    then show ?thesis by (simp add: strip_last_snoc)
  qed
  with assms(1,2) show ?thesis
    by (simp add: kept_words_def size_t_of_int_def ToUpper_map)
qed

text \<open>
  C5, as the code has it by design. The load returns whenever the maximum is between 0
  and 30. With a maximum that is not negative, the master list of a load from the empty
  library is made of one block of words for each line of the file, in the order of the
  lines. The block of an empty line is empty. Let a line be a word that is not empty and
  does not end in a carriage return, a space or a tab, alone or followed by one of these
  three characters: its block is the word folded to upper case when the word is not longer
  than the maximum, and empty otherwise. No character of the word is compared with the
  alphabet: a word with digits or signs is kept as a word of letters is. Every word of the
  master list is in the bucket of each of its masked patterns.
\<close>

theorem ReadFromFile_keeps:
  "(0 \<le> nMaxSize \<and> nMaxSize \<le> 30 \<longrightarrow> ReadFromFile f nMaxSize Library_new \<noteq> None)
   \<and> (0 \<le> nMaxSize \<and> ReadFromFile f nMaxSize Library_new = Some lib \<longrightarrow>
        (\<exists>blocks. length blocks = length f
           \<and> m_vecWords lib = map Word (concat blocks)
           \<and> (\<forall>i < length f. f ! i = [] \<longrightarrow> blocks ! i = [])
           \<and> (\<forall>i < length f. \<forall>w t.
                 f ! i = w @ t \<and> w \<noteq> []
                 \<and> last w \<notin> {CHR 0x0D, CHR '' '', CHR 0x09}
                 \<and> t \<in> {[], [CHR 0x0D], [CHR '' ''], [CHR 0x09]} \<longrightarrow>
                 blocks ! i = (if int (length w) \<le> nMaxSize then [ToUpper w] else []))
           \<and> (\<forall>w \<in> set (concat blocks). \<forall>m < 2 ^ length w.
                 \<exists>b. FindWord lib (mask_pattern w m) = Some b \<and> Word w \<in> set b)))"
proof (intro conjI impI)
  assume "0 \<le> nMaxSize \<and> nMaxSize \<le> 30"
  then have "\<exists>lib'. ReadFromFile f nMaxSize Library_new = Some lib'"
    using ReadFromFile_total by blast
  then show "ReadFromFile f nMaxSize Library_new \<noteq> None" by auto
next
  assume a: "0 \<le> nMaxSize \<and> ReadFromFile f nMaxSize Library_new = Some lib"
  then have n: "0 \<le> nMaxSize" and r: "ReadFromFile f nMaxSize Library_new = Some lib"
    by simp_all
  let ?blocks = "map (\<lambda>l. kept_words [l] nMaxSize) f"
  from ReadFromFile_words [OF r] have "m_vecWords lib = map Word (kept_words f nMaxSize)"
    by (simp add: Library_new_def)
  then have ws: "m_vecWords lib = map Word (concat ?blocks)"
    using kept_words_concat [of f nMaxSize] by simp
  have em: "\<forall>i < length f. f ! i = [] \<longrightarrow> ?blocks ! i = []"
    by (simp add: kept_words_def)
  have bl: "\<forall>i < length f. \<forall>w t.
      f ! i = w @ t \<and> w \<noteq> [] \<and> last w \<notin> {CHR 0x0D, CHR '' '', CHR 0x09}
      \<and> t \<in> {[], [CHR 0x0D], [CHR '' ''], [CHR 0x09]} \<longrightarrow>
      ?blocks ! i = (if int (length w) \<le> nMaxSize then [ToUpper w] else [])"
  proof (intro allI impI)
    fix i w t
    assume i: "i < length f"
      and h: "f ! i = w @ t \<and> w \<noteq> [] \<and> last w \<notin> {CHR 0x0D, CHR '' '', CHR 0x09}
        \<and> t \<in> {[], [CHR 0x0D], [CHR '' ''], [CHR 0x09]}"
    then have "w \<noteq> []" "\<not> is_trailing (last w)" "t = [] \<or> (\<exists>c. t = [c] \<and> is_trailing c)"
      by (auto simp: is_trailing_def)
    from kept_words_line [OF n this] i h
    show "?blocks ! i = (if int (length w) \<le> nMaxSize then [ToUpper w] else [])"
      by simp
  qed
  have ix: "\<forall>w \<in> set (concat ?blocks). \<forall>m < 2 ^ length w.
      \<exists>b. FindWord lib (mask_pattern w m) = Some b \<and> Word w \<in> set b"
  proof (intro ballI allI impI)
    fix w and m :: nat assume w: "w \<in> set (concat ?blocks)" and m: "m < 2 ^ length w"
    from w ws have "Word w \<in> set (m_vecWords lib)" by simp
    moreover from m have "mask_pattern w m \<in> patterns_of (Word w)"
      by (simp add: patterns_of_def word_len_def)
    ultimately show "\<exists>b. FindWord lib (mask_pattern w m) = Some b \<and> Word w \<in> set b"
      by (rule bucket_has_word [OF loaded_inv [OF r]])
  qed
  show "\<exists>blocks. length blocks = length f
           \<and> m_vecWords lib = map Word (concat blocks)
           \<and> (\<forall>i < length f. f ! i = [] \<longrightarrow> blocks ! i = [])
           \<and> (\<forall>i < length f. \<forall>w t.
                 f ! i = w @ t \<and> w \<noteq> []
                 \<and> last w \<notin> {CHR 0x0D, CHR '' '', CHR 0x09}
                 \<and> t \<in> {[], [CHR 0x0D], [CHR '' ''], [CHR 0x09]} \<longrightarrow>
                 blocks ! i = (if int (length w) \<le> nMaxSize then [ToUpper w] else []))
           \<and> (\<forall>w \<in> set (concat blocks). \<forall>m < 2 ^ length w.
                 \<exists>b. FindWord lib (mask_pattern w m) = Some b \<and> Word w \<in> set b)"
    by (rule exI [of _ ?blocks]) (use ws em bl ix in simp)
qed

theorem ReadFromFile_keeps_witness:
  "ReadFromFile [''cat'', ''a1 '', [], ''toolong''] 3 Library_new \<noteq> None
   \<and> ToUpper ''a1'' = ''A1''
   \<and> m_vecWords (the (ReadFromFile [''cat'', ''a1 '', [], ''toolong''] 3 Library_new))
       = [Word ''CAT'', Word ''A1'']"
proof -
  let ?f = "[''cat'', ''a1 '', [], ''toolong'']"
  let ?lib = "the (ReadFromFile ?f 3 Library_new)"
  note th = ReadFromFile_keeps [of 3 ?f ?lib]
  from th have ne: "ReadFromFile ?f 3 Library_new \<noteq> None" by simp
  then have "ReadFromFile ?f 3 Library_new = Some ?lib" by simp
  with th obtain blocks where b: "length blocks = length ?f"
    "m_vecWords ?lib = map Word (concat blocks)"
    "\<forall>i < length ?f. ?f ! i = [] \<longrightarrow> blocks ! i = []"
    "\<forall>i < length ?f. \<forall>w t.
        ?f ! i = w @ t \<and> w \<noteq> [] \<and> last w \<notin> {CHR 0x0D, CHR '' '', CHR 0x09}
        \<and> t \<in> {[], [CHR 0x0D], [CHR '' ''], [CHR 0x09]} \<longrightarrow>
        blocks ! i = (if int (length w) \<le> 3 then [ToUpper w] else [])"
    by auto
  have s: "ToUpper ''cat'' = ''CAT''" "ToUpper ''a1'' = ''A1''" by code_simp+
  from b(1) obtain b0 b1 b2 b3 where bs: "blocks = [b0, b1, b2, b3]"
    by (auto simp: length_Suc_conv)
  from b(4) [rule_format, of 0 "''cat''" "[]"] s bs have "b0 = [''CAT'']" by simp
  moreover from b(4) [rule_format, of 1 "''a1''" "'' ''"] s bs have "b1 = [''A1'']" by simp
  moreover from b(3) [rule_format, of 2] bs have "b2 = []" by simp
  moreover from b(4) [rule_format, of 3 "''toolong''" "[]"] bs have "b3 = []" by simp
  ultimately have "blocks = [[''CAT''], [''A1''], [], []]" using bs by simp
  with b(2) have "m_vecWords ?lib = [Word ''CAT'', Word ''A1'']" by simp
  with ne s show ?thesis by simp
qed

theorem ReadFromFile_keeps_counterexample:
  "map_option m_vecWords (ReadFromFile [''a1'', ''x-y'', ''ab''] 5 Library_new)
     = Some [Word ''A1'', Word ''X-Y'', Word ''AB'']"
  by code_simp

text \<open>
  C6, as the code has it. \<^verbatim>\<open>LoadFromFile\<close> keeps exactly the lines that are not empty
  and do not start with a slash, each as it is: no cell is compared with the alphabet and
  a trailing carriage return stays in the line, a cell like any other. \<^verbatim>\<open>CheckSize\<close>
  aborts exactly when two kept lines differ in length.
\<close>

theorem LoadFromFile_CheckSize:
  "vecLines (LoadFromFile f (Grid_new name)) = filter (\<lambda>line. line \<noteq> [] \<and> line ! 0 \<noteq> CHR ''/'') f
   \<and> (CheckSize (LoadFromFile f (Grid_new name)) = None \<longleftrightarrow>
        (\<exists>a \<in> set (filter (\<lambda>line. line \<noteq> [] \<and> line ! 0 \<noteq> CHR ''/'') f).
         \<exists>b \<in> set (filter (\<lambda>line. line \<noteq> [] \<and> line ! 0 \<noteq> CHR ''/'') f).
           length a \<noteq> length b))"
proof -
  let ?keep = "\<lambda>line. line \<noteq> [] \<and> line ! 0 \<noteq> CHR ''/''"
  have gen: "vecLines (fold (\<lambda>line g. if ?keep line then g\<lparr>vecLines := vecLines g @ [line]\<rparr> else g) f g)
      = vecLines g @ filter ?keep f" for g :: Grid
    by (induction f arbitrary: g) simp_all
  have v: "vecLines (LoadFromFile f (Grid_new name)) = filter ?keep f"
    unfolding LoadFromFile_def gen by (simp add: Grid_new_def)
  have c: "CheckSize g = None \<longleftrightarrow> (\<exists>a \<in> set (vecLines g). \<exists>b \<in> set (vecLines g). length a \<noteq> length b)"
    for g
  proof (cases "vecLines g")
    case Nil
    then show ?thesis by (simp add: CheckSize_def)
  next
    case (Cons l ls)
    then show ?thesis
      by (auto simp: CheckSize_def cols_def list_all_iff)
  qed
  show ?thesis unfolding c v by simp
qed

theorem LoadFromFile_CheckSize_counterexample:
  "Init [[CHR ''a'', CHR 0x0D]] [] \<noteq> None
   \<and> vecLines (m_grid (the (Init [[CHR ''a'', CHR 0x0D]] []))) = [[CHR ''a'', CHR 0x0D]]
   \<and> cols (m_grid (the (Init [[CHR ''a'', CHR 0x0D]] []))) = 2
   \<and> GetChar (m_grid (the (Init [[CHR ''a'', CHR 0x0D]] []))) \<lparr>nRow = 0, nCol = 1\<rparr> = Some (CHR 0x0D)"
  by code_simp

subsection \<open>Reading and writing cells\<close>

text \<open>
  A point is in the lines when its row is a line of the grid and its column a position of
  that line; it is valid when \<^verbatim>\<open>GetChar\<close> and \<^verbatim>\<open>SetChar\<close> accept it. The shape of a grid
  is the list of the lengths of its lines.
\<close>

definition in_lines :: "Grid \<Rightarrow> Point \<Rightarrow> bool" where
  "in_lines g p \<longleftrightarrow>
     0 \<le> nRow p \<and> nat (nRow p) < length (vecLines g) \<and>
     0 \<le> nCol p \<and> nat (nCol p) < length (vecLines g ! nat (nRow p))"

definition valid :: "Grid \<Rightarrow> Point \<Rightarrow> bool" where
  "valid g p \<longleftrightarrow> IsInBounds g p \<and> nat (nCol p) < length (vecLines g ! nat (nRow p))"

definition cell_at :: "Grid \<Rightarrow> Point \<Rightarrow> char" where
  "cell_at g p = vecLines g ! nat (nRow p) ! nat (nCol p)"

definition shape :: "Grid \<Rightarrow> nat list" where
  "shape g = map length (vecLines g)"

definition put :: "Grid \<Rightarrow> Point \<Rightarrow> char \<Rightarrow> Grid" where
  "put g p c =
     g\<lparr>vecLines := (vecLines g)[nat (nRow p) := (vecLines g ! nat (nRow p))[nat (nCol p) := c]]\<rparr>"

lemma GetChar_valid: "GetChar g p = (if valid g p then Some (cell_at g p) else None)"
  by (simp add: GetChar_def valid_def cell_at_def)

lemma SetChar_valid: "SetChar g p c = (if valid g p then Some (put g p c) else None)"
  by (simp add: SetChar_def valid_def put_def)

lemma valid_in_lines: "valid g p \<Longrightarrow> in_lines g p"
  by (auto simp: valid_def in_lines_def IsInBounds_def rows_def)

lemma in_lines_shape:
  "in_lines g p \<longleftrightarrow>
     0 \<le> nRow p \<and> nat (nRow p) < length (shape g) \<and> 0 \<le> nCol p \<and> nat (nCol p) < shape g ! nat (nRow p)"
  by (auto simp: in_lines_def shape_def)

lemma valid_shape_eq:
  "valid g p \<longleftrightarrow>
     in_lines g p \<and> nCol p < (if shape g \<noteq> [] then int (shape g ! 0) else 0)"
  by (cases "vecLines g")
    (auto simp: valid_def in_lines_def IsInBounds_def rows_def cols_def shape_def)

lemma shape_cong: "shape g = shape h \<Longrightarrow> valid g = valid h \<and> in_lines g = in_lines h"
  by (simp add: fun_eq_iff valid_shape_eq in_lines_shape)

lemma shape_put [simp]: "shape (put g p c) = shape g"
proof -
  have "map length (xs[r := (xs ! r)[k := c]]) = map length xs" for xs :: "string list" and r k
  proof (rule nth_equalityI)
    fix i assume "i < length (map length (xs[r := (xs ! r)[k := c]]))"
    then show "map length (xs[r := (xs ! r)[k := c]]) ! i = map length xs ! i"
      by (cases "i = r") simp_all
  qed simp
  then show ?thesis by (simp add: shape_def put_def)
qed

lemma put_fields [simp]: "sID (put g p c) = sID g" "vecSpans (put g p c) = vecSpans g"
  by (simp_all add: put_def)

lemma cell_at_put:
  assumes "in_lines g p" "in_lines g q"
  shows "cell_at (put g p c) q = (if q = p then c else cell_at g q)"
proof (cases "q = p")
  case True
  with assms show ?thesis by (simp add: cell_at_def put_def in_lines_def)
next
  case False
  with assms have "nat (nRow q) \<noteq> nat (nRow p) \<or> nat (nCol q) \<noteq> nat (nCol p)"
    by (auto simp: in_lines_def Point_eq_iff)
  then show ?thesis
  proof
    assume "nat (nRow q) \<noteq> nat (nRow p)"
    with False show ?thesis by (simp add: cell_at_def put_def)
  next
    assume c: "nat (nCol q) \<noteq> nat (nCol p)"
    show ?thesis
    proof (cases "nat (nRow q) = nat (nRow p)")
      case True
      with c False assms show ?thesis by (simp add: cell_at_def put_def in_lines_def)
    next
      case r: False
      with False show ?thesis by (simp add: cell_at_def put_def)
    qed
  qed
qed

lemma grid_eqI:
  assumes "sID g = sID h" "vecSpans g = vecSpans h" "shape g = shape h"
    and cells: "\<And>q. in_lines g q \<Longrightarrow> cell_at g q = cell_at h q"
  shows "g = (h::Grid)"
proof -
  have "vecLines g = vecLines h"
  proof (rule nth_equalityI)
    from assms(3) show len: "length (vecLines g) = length (vecLines h)"
      by (metis length_map shape_def)
    fix r assume r: "r < length (vecLines g)"
    show "vecLines g ! r = vecLines h ! r"
    proof (rule nth_equalityI)
      from assms(3) r len show l2: "length (vecLines g ! r) = length (vecLines h ! r)"
        by (metis nth_map shape_def)
      fix k assume k: "k < length (vecLines g ! r)"
      let ?q = "\<lparr>nRow = int r, nCol = int k\<rparr>"
      from r k have "in_lines g ?q" by (simp add: in_lines_def)
      from cells [OF this] show "vecLines g ! r ! k = vecLines h ! r ! k"
        by (simp add: cell_at_def)
    qed
  qed
  with assms(1,2) show ?thesis by simp
qed

abbreviation span_point :: "Span \<Rightarrow> int \<Rightarrow> Point" where
  "span_point sp i \<equiv> step (bVert sp) (point sp) i"

lemma span_point_inj: "span_point sp i = span_point sp j \<longleftrightarrow> i = j"
  by (auto simp: point_eq_dir [of _ _ "bVert sp"])

lemma SetString_loop_spec:
  assumes "SetString_loop g sp w js = Some g'" "distinct js"
  shows "shape g' = shape g \<and> sID g' = sID g \<and> vecSpans g' = vecSpans g
    \<and> (\<forall>i \<in> set js. 0 \<le> i \<and> i < nLen sp \<and> valid g (span_point sp i)
          \<and> cell_at g' (span_point sp i) = w ! nat i)
    \<and> (\<forall>q. in_lines g q \<and> q \<notin> span_point sp ` set js \<longrightarrow> cell_at g' q = cell_at g q)"
  using assms
proof (induction js arbitrary: g)
  case Nil
  then show ?case by simp
next
  case (Cons i js)
  let ?p = "span_point sp i"
  let ?g1 = "put g ?p (w ! nat i)"
  from Cons.prems(1) have i: "0 \<le> i" "i < nLen sp" and v: "valid g ?p"
    and rec: "SetString_loop ?g1 sp w js = Some g'"
    by (auto simp: GetPoint_dir SetChar_valid split: if_splits bind_splits)
  from Cons.prems(2) have d: "distinct js" "i \<notin> set js" by simp_all
  note IH = Cons.IH [OF rec d(1)]
  note sc = shape_cong [of ?g1 g, simplified]
  have il: "in_lines g ?p" using v by (rule valid_in_lines)
  have notin: "?p \<notin> span_point sp ` set js"
    using d(2) by (auto simp: span_point_inj)
  have a: "cell_at g' ?p = w ! nat i"
    using IH il notin by (simp add: sc cell_at_put)
  have b: "cell_at g' q = cell_at g q" if "in_lines g q" "q \<notin> span_point sp ` set (i # js)" for q
  proof -
    from that IH have "cell_at g' q = cell_at ?g1 q" by (simp add: sc)
    also from that il have "\<dots> = cell_at g q" by (simp add: cell_at_put)
    finally show ?thesis .
  qed
  from IH i v a b show ?case by (auto simp: sc)
qed

lemma SetString_loop_succeeds:
  "\<forall>i \<in> set js. 0 \<le> i \<and> i < nLen sp \<and> valid g (span_point sp i) \<Longrightarrow>
   \<exists>g'. SetString_loop g sp w js = Some g'"
proof (induction js arbitrary: g)
  case Nil
  then show ?case by simp
next
  case (Cons i js)
  let ?g1 = "put g (span_point sp i) (w ! nat i)"
  note sc = shape_cong [of ?g1 g, simplified]
  from Cons.prems have "\<forall>j \<in> set js. 0 \<le> j \<and> j < nLen sp \<and> valid ?g1 (span_point sp j)"
    by (simp add: sc)
  from Cons.IH [OF this] Cons.prems show ?case
    by (simp add: GetPoint_dir SetChar_valid)
qed

lemma SetString_spec:
  assumes "SetString g sp w = Some g'"
  shows "nLen sp = int (length w) \<and> shape g' = shape g \<and> sID g' = sID g
    \<and> vecSpans g' = vecSpans g
    \<and> (\<forall>i. 0 \<le> i \<and> i < nLen sp \<longrightarrow>
          valid g (span_point sp i) \<and> cell_at g' (span_point sp i) = w ! nat i)
    \<and> (\<forall>q. in_lines g q \<and> \<not> covers sp q \<longrightarrow> cell_at g' q = cell_at g q)"
proof -
  from assms have n: "nLen sp = int (length w)"
    and l: "SetString_loop g sp w [0..nLen sp - 1] = Some g'"
    by (auto simp: SetString_def Let_def split: if_splits)
  have "span_point sp ` set [0..nLen sp - 1] = {q. covers sp q}"
    by (auto simp: covers_iff)
  with SetString_loop_spec [OF l] n show ?thesis by auto
qed

lemma SetString_Some_iff:
  "(\<exists>g'. SetString g sp w = Some g') \<longleftrightarrow>
     nLen sp = int (length w) \<and> (\<forall>i. 0 \<le> i \<and> i < nLen sp \<longrightarrow> valid g (span_point sp i))"
proof
  assume "\<exists>g'. SetString g sp w = Some g'"
  then show "nLen sp = int (length w) \<and> (\<forall>i. 0 \<le> i \<and> i < nLen sp \<longrightarrow> valid g (span_point sp i))"
    using SetString_spec by blast
next
  assume a: "nLen sp = int (length w) \<and> (\<forall>i. 0 \<le> i \<and> i < nLen sp \<longrightarrow> valid g (span_point sp i))"
  then have "\<forall>i \<in> set [0..nLen sp - 1]. 0 \<le> i \<and> i < nLen sp \<and> valid g (span_point sp i)"
    by auto
  from SetString_loop_succeeds [OF this] a show "\<exists>g'. SetString g sp w = Some g'"
    by (simp add: SetString_def)
qed

text \<open>Writing a second word of the same length over a written word.\<close>

lemma SetString_overwrite:
  assumes "SetString g sp w = Some g1" "length w' = length w"
  shows "SetString g1 sp w' = SetString g sp w'"
proof -
  note S1 = SetString_spec [OF assms(1)]
  then have sh: "shape g1 = shape g" by simp
  note sc = shape_cong [OF sh]
  have ok: "nLen sp = int (length w') \<and> (\<forall>i. 0 \<le> i \<and> i < nLen sp \<longrightarrow> valid g (span_point sp i))"
    using S1 assms(2) by simp
  then obtain h where h: "SetString g sp w' = Some h"
    using SetString_Some_iff [of g sp w'] by blast
  from ok obtain h1 where h1: "SetString g1 sp w' = Some h1"
    using SetString_Some_iff [of g1 sp w'] by (auto simp: sc)
  note H = SetString_spec [OF h] and H1 = SetString_spec [OF h1]
  have "h1 = h"
  proof (rule grid_eqI)
    show "sID h1 = sID h" "vecSpans h1 = vecSpans h" "shape h1 = shape h"
      using H H1 S1 by simp_all
    fix q assume "in_lines h1 q"
    then have q: "in_lines g q" "in_lines g1 q"
      using H1 sh by (simp_all add: in_lines_shape)
    show "cell_at h1 q = cell_at h q"
    proof (cases "covers sp q")
      case True
      then obtain i where "0 \<le> i" "i < nLen sp" "q = span_point sp i"
        by (auto simp: covers_iff)
      with H H1 show ?thesis by simp
    next
      case False
      with q H H1 S1 show ?thesis by simp
    qed
  qed
  with h h1 show ?thesis by simp
qed


subsection \<open>The string of a span and the slots of a node\<close>

text \<open>
  The string along a span, when a span can be read, the attribute of a string, and the
  slot \<^verbatim>\<open>Loop\<close> builds for a span.
\<close>

definition span_string :: "Grid \<Rightarrow> Span \<Rightarrow> string" where
  "span_string g sp = map (\<lambda>i. cell_at g (span_point sp i)) [0..nLen sp - 1]"

definition readable :: "Grid \<Rightarrow> Span \<Rightarrow> bool" where
  "readable g sp \<longleftrightarrow> 0 \<le> nLen sp \<and> (\<forall>i. 0 \<le> i \<and> i < nLen sp \<longrightarrow> valid g (span_point sp i))"

definition attr_of :: "string \<Rightarrow> Attribute" where
  "attr_of s = \<lparr>bHasLetters = (\<exists>c \<in> set s. is_letter c), bHasBlanks = (CHR ''.'' \<in> set s)\<rparr>"

definition slot_of :: "Grid \<Rightarrow> Span \<Rightarrow> Slot" where
  "slot_of g sp = \<lparr>span = sp, sPattern = span_string g sp\<rparr>"

lemma Attribute_eq_iff:
  "(a::Attribute) = b \<longleftrightarrow> bHasLetters a = bHasLetters b \<and> bHasBlanks a = bHasBlanks b"
  by (cases a, cases b) simp

lemma length_span_string [simp]: "length (span_string g sp) = nat (nLen sp)"
  by (simp add: span_string_def)

lemma nth_span_string:
  "0 \<le> i \<Longrightarrow> i < nLen sp \<Longrightarrow> span_string g sp ! nat i = cell_at g (span_point sp i)"
  by (simp add: span_string_def)

lemma set_span_string:
  "set (span_string g sp) = {cell_at g (span_point sp i) |i. 0 \<le> i \<and> i < nLen sp}"
  by (auto simp: span_string_def)

lemma in_span_string:
  "c \<in> set (span_string g sp) \<longleftrightarrow>
     (\<exists>i. 0 \<le> i \<and> i < nLen sp \<and> cell_at g (span_point sp i) = c)"
  by (auto simp: span_string_def)

lemma GetString_loop_spec:
  assumes "GetString_loop g sp js (s, a) = Some (s', a')" "distinct js"
    "\<forall>i \<in> set js. nat i < length s"
  shows "length s' = length s
    \<and> (\<forall>i \<in> set js. 0 \<le> i \<and> i < nLen sp \<and> valid g (span_point sp i)
          \<and> s' ! nat i = cell_at g (span_point sp i))
    \<and> (\<forall>k. k < length s \<and> k \<notin> nat ` set js \<longrightarrow> s' ! k = s ! k)
    \<and> bHasBlanks a' = (bHasBlanks a \<or> (\<exists>i \<in> set js. cell_at g (span_point sp i) = CHR ''.''))
    \<and> bHasLetters a' = (bHasLetters a \<or> (\<exists>i \<in> set js. is_letter (cell_at g (span_point sp i))))"
  using assms
proof (induction js arbitrary: s a)
  case Nil
  then show ?case by simp
next
  case (Cons i js)
  let ?p = "span_point sp i"
  let ?c = "cell_at g ?p"
  let ?a1 = "if ?c = CHR ''.'' then a\<lparr>bHasBlanks := True\<rparr>
             else if is_letter ?c then a\<lparr>bHasLetters := True\<rparr> else a"
  from Cons.prems(1) have i: "0 \<le> i" "i < nLen sp" and v: "valid g ?p"
    and rec: "GetString_loop g sp js (s[nat i := ?c], ?a1) = Some (s', a')"
    by (auto simp: GetPoint_dir GetChar_valid split: if_splits bind_splits)
  from Cons.prems(2) have d: "distinct js" "i \<notin> set js" by simp_all
  from Cons.prems(3) have l: "\<forall>j \<in> set js. nat j < length (s[nat i := ?c])" "nat i < length s"
    by simp_all
  note IH = Cons.IH [OF rec d(1) l(1)]
  have ni: "nat i \<notin> nat ` set js"
  proof
    assume "nat i \<in> nat ` set js"
    then obtain j where j: "j \<in> set js" "nat i = nat j" by blast
    with IH have "0 \<le> j" by blast
    with j(2) i(1) have "i = j" by arith
    with j(1) d(2) show False by simp
  qed
  have a: "s' ! nat i = ?c"
    using IH ni l(2) by simp
  have b: "s' ! k = s ! k" if "k < length s" "k \<notin> nat ` set (i # js)" for k
    using IH that by simp
  have nl: "\<not> is_letter (CHR ''.'')" by (simp add: is_letter_def)
  have f1: "bHasBlanks ?a1 = (bHasBlanks a \<or> ?c = CHR ''.'')" by simp
  have f2: "bHasLetters ?a1 = (bHasLetters a \<or> is_letter ?c)" using nl by auto
  from IH have "bHasBlanks a' =
      (bHasBlanks ?a1 \<or> (\<exists>j \<in> set js. cell_at g (span_point sp j) = CHR ''.''))"
    by blast
  then have c: "bHasBlanks a' =
      (bHasBlanks a \<or> (\<exists>j \<in> set (i # js). cell_at g (span_point sp j) = CHR ''.''))"
    unfolding f1 by auto
  from IH have "bHasLetters a' =
      (bHasLetters ?a1 \<or> (\<exists>j \<in> set js. is_letter (cell_at g (span_point sp j))))"
    by blast
  then have e: "bHasLetters a' =
      (bHasLetters a \<or> (\<exists>j \<in> set (i # js). is_letter (cell_at g (span_point sp j))))"
    unfolding f2 by auto
  from IH have len: "length s' = length s"
    and rest: "\<forall>j \<in> set js. 0 \<le> j \<and> j < nLen sp \<and> valid g (span_point sp j)
          \<and> s' ! nat j = cell_at g (span_point sp j)"
    by simp_all
  from len rest i v a b c e show ?case by auto
qed

lemma GetString_loop_succeeds:
  "\<forall>i \<in> set js. 0 \<le> i \<and> i < nLen sp \<and> valid g (span_point sp i) \<Longrightarrow>
   \<exists>r. GetString_loop g sp js sa = Some r"
proof (induction js arbitrary: sa)
  case Nil
  then show ?case by simp
next
  case (Cons i js)
  obtain s a where sa: "sa = (s, a)" by (cases sa)
  from Cons.prems have "\<forall>j \<in> set js. 0 \<le> j \<and> j < nLen sp \<and> valid g (span_point sp j)"
    by simp
  from Cons.IH [OF this] Cons.prems show ?case
    by (simp add: sa GetPoint_dir GetChar_valid)
qed

lemma GetString_eq:
  "GetString g sp Attribute_new =
     (if readable g sp then Some (span_string g sp, attr_of (span_string g sp)) else None)"
proof (cases "readable g sp")
  case False
  have "GetString g sp Attribute_new = None"
  proof (rule ccontr)
    assume "GetString g sp Attribute_new \<noteq> None"
    then obtain s a where r: "GetString g sp Attribute_new = Some (s, a)" by auto
    then have n: "0 \<le> nLen sp"
      and l: "GetString_loop g sp [0..nLen sp - 1]
          (replicate (nat (nLen sp)) (CHR 0x00), Attribute_new) = Some (s, a)"
      by (auto simp: GetString_def Let_def split: if_splits)
    from GetString_loop_spec [OF l] have "\<forall>i \<in> set [0..nLen sp - 1]. valid g (span_point sp i)"
      by auto
    with n False show False by (auto simp: readable_def)
  qed
  with False show ?thesis by simp
next
  case True
  then have n: "0 \<le> nLen sp"
    and "\<forall>i \<in> set [0..nLen sp - 1]. 0 \<le> i \<and> i < nLen sp \<and> valid g (span_point sp i)"
    by (auto simp: readable_def)
  from GetString_loop_succeeds [OF this(2)] obtain s a where
    l: "GetString_loop g sp [0..nLen sp - 1]
          (replicate (nat (nLen sp)) (CHR 0x00), Attribute_new) = Some (s, a)"
    by fastforce
  have "\<forall>i \<in> set [0..nLen sp - 1]. nat i < length (replicate (nat (nLen sp)) (CHR 0x00))"
    by auto
  note L = GetString_loop_spec [OF l distinct_upto this]
  have s: "s = span_string g sp"
  proof (rule nth_equalityI)
    show "length s = length (span_string g sp)" using L by simp
    fix k assume "k < length s"
    with L have k: "0 \<le> int k" "int k < nLen sp" by simp_all
    then have "int k \<in> set [0..nLen sp - 1]" by simp
    with L have "s ! nat (int k) = cell_at g (span_point sp (int k))" by blast
    with k show "s ! k = span_string g sp ! k"
      using nth_span_string [OF k, of g] by simp
  qed
  from L have "bHasBlanks a = (\<exists>i \<in> set [0..nLen sp - 1]. cell_at g (span_point sp i) = CHR ''.'')"
    by (simp add: Attribute_new_def)
  also have "\<dots> = (CHR ''.'' \<in> set (span_string g sp))"
    unfolding in_span_string by auto
  finally have b: "bHasBlanks a = (CHR ''.'' \<in> set (span_string g sp))" .
  from L have "bHasLetters a = (\<exists>i \<in> set [0..nLen sp - 1]. is_letter (cell_at g (span_point sp i)))"
    by (simp add: Attribute_new_def)
  also have "\<dots> = (\<exists>c \<in> set (span_string g sp). is_letter c)"
    unfolding Bex_def in_span_string by auto
  finally have c: "bHasLetters a = (\<exists>c \<in> set (span_string g sp). is_letter c)" .
  from b c have "a = attr_of (span_string g sp)"
    by (simp add: attr_of_def Attribute_eq_iff)
  with l s n True show ?thesis by (simp add: GetString_def)
qed

lemma classify_eq:
  "classify g spans (E, P, F) =
     (if \<forall>sp \<in> set spans. readable g sp then
        Some (E @ map (slot_of g) (filter (\<lambda>sp. IsEmpty (attr_of (span_string g sp))) spans),
              P @ map (slot_of g) (filter (\<lambda>sp. IsPartial (attr_of (span_string g sp))) spans),
              F @ map (slot_of g) (filter (\<lambda>sp. IsFull (attr_of (span_string g sp))) spans))
      else None)"
proof (induction spans arbitrary: E P F)
  case Nil
  then show ?case by simp
next
  case (Cons sp spans)
  have ex: "\<not> (IsEmpty a \<and> IsPartial a)" "\<not> (IsEmpty a \<and> IsFull a)" "\<not> (IsPartial a \<and> IsFull a)"
    for a by (auto simp: IsEmpty_def IsPartial_def IsFull_def)
  show ?case
  proof (cases "readable g sp")
    case False
    then show ?thesis by (simp add: GetString_eq)
  next
    case True
    then show ?thesis
      using ex [of "attr_of (span_string g sp)"]
      by (simp add: GetString_eq Cons.IH slot_of_def)
  qed
qed

lemma check_duplicates_eq:
  "check_duplicates ws S =
     Some (distinct (map sPattern ws) \<and> set (map sPattern ws) \<inter> S = {})"
proof (induction ws arbitrary: S)
  case Nil
  then show ?case by simp
next
  case (Cons w ws)
  then show ?case
    by (auto simp: ExistsInSet_def AddToSet_def)
qed


definition empties :: "Grid \<Rightarrow> Span list" where
  "empties g = filter (\<lambda>sp. IsEmpty (attr_of (span_string g sp))) (vecSpans g)"

definition partials :: "Grid \<Rightarrow> Span list" where
  "partials g = filter (\<lambda>sp. IsPartial (attr_of (span_string g sp))) (vecSpans g)"

definition fulls :: "Grid \<Rightarrow> Span list" where
  "fulls g = filter (\<lambda>sp. IsFull (attr_of (span_string g sp))) (vecSpans g)"

lemma Loop_Suc:
  "Loop (Suc n) lib g d =
     (if \<not> (\<forall>sp \<in> set (vecSpans g). readable g sp) then ([], Aborted)
      else if \<not> (\<forall>sp \<in> set (fulls g). IsWord lib (span_string g sp)) then ([], Returned)
      else if \<not> distinct (map (span_string g) (fulls g)) then ([], Returned)
      else if partials g = [] \<and> empties g = [] then ([g], Returned)
      else if partials g = [] then ([], Aborted)
      else CommitSlot n lib g (slot_of g (hd (partials g))) (d + 1))"
proof (cases "\<forall>sp \<in> set (vecSpans g). readable g sp")
  case False
  then have "classify g (vecSpans g) ([], [], []) = None"
    by (simp add: classify_eq)
  with False show ?thesis by simp
next
  case True
  then have c: "classify g (vecSpans g) ([], [], []) =
      Some (map (slot_of g) (empties g), map (slot_of g) (partials g), map (slot_of g) (fulls g))"
    by (simp add: classify_eq empties_def partials_def fulls_def)
  have p: "sPattern \<circ> slot_of g = span_string g"
    by (rule ext) (simp add: slot_of_def)
  have w: "list_all (\<lambda>w. IsWord lib (sPattern w)) (map (slot_of g) (fulls g))
      = (\<forall>sp \<in> set (fulls g). IsWord lib (span_string g sp))"
    by (simp add: list_all_iff slot_of_def)
  have dd: "check_duplicates (map (slot_of g) (fulls g)) {} =
      Some (distinct (map (span_string g) (fulls g)))"
    by (simp add: check_duplicates_eq p)
  have h: "map (slot_of g) (partials g) ! 0 = slot_of g (hd (partials g))"
    if "partials g \<noteq> []"
    using that by (cases "partials g") simp_all
  show ?thesis
  proof (cases "partials g = []")
    case e: True
    with True show ?thesis
      unfolding Loop.simps c by (simp add: Let_def w dd)
  next
    case ne: False
    with True h [OF ne] show ?thesis
      unfolding Loop.simps c by (simp add: Let_def w dd del: CommitSlot.simps)
  qed
qed

declare Loop.simps(2) [simp del]

text \<open>
  The commit loop in the words of the specification: every candidate is written into the
  state the node had before any commit, and that state is restored after the recursive
  call returns.
\<close>

fun CommitSlot_words_spec ::
  "nat \<Rightarrow> Library \<Rightarrow> Grid \<Rightarrow> Slot \<Rightarrow> int \<Rightarrow> Word list \<Rightarrow> Grid list \<times> ending" where
  "CommitSlot_words_spec fuel lib grid slot nDepth [] = ([], Returned)"
| "CommitSlot_words_spec fuel lib grid slot nDepth (w # rest) =
     (case SetString grid (span slot) (word_s w) of
        None \<Rightarrow> ([], Aborted)
      | Some grid' \<Rightarrow>
          (case Loop fuel lib grid' nDepth of
             (out, Returned) \<Rightarrow>
               (case CommitSlot_words_spec fuel lib grid slot nDepth rest of
                  (out', e) \<Rightarrow> (out @ out', e))
           | (out, e) \<Rightarrow> (out, e)))"

definition CommitSlot_spec :: "nat \<Rightarrow> Library \<Rightarrow> Grid \<Rightarrow> Slot \<Rightarrow> int \<Rightarrow> Grid list \<times> ending" where
  "CommitSlot_spec fuel lib grid slot nDepth =
     (case FindWord lib (sPattern slot) of
        Some words \<Rightarrow> CommitSlot_words_spec fuel lib grid slot nDepth words
      | None \<Rightarrow> ([], Returned))"

lemma CommitSlot_words_shift:
  assumes "SetString g (span slot) w0 = Some g1"
  shows "CommitSlot_words n lib g1 slot d words rest = CommitSlot_words n lib g slot d words rest"
proof (cases rest)
  case Nil
  then show ?thesis by simp
next
  case (Cons w rest')
  have "SetString g1 (span slot) (word_s w) = SetString g (span slot) (word_s w)"
  proof (cases "length (word_s w) = length w0")
    case True
    with assms show ?thesis by (rule SetString_overwrite)
  next
    case False
    moreover from assms have "nLen (span slot) = int (length w0)"
      using SetString_spec by blast
    ultimately show ?thesis by (simp add: SetString_def)
  qed
  then show ?thesis by (simp add: Cons)
qed

lemma CommitSlot_words_eq_spec:
  "words \<noteq> [] \<Longrightarrow>
   CommitSlot_words n lib g slot d words rest = CommitSlot_words_spec n lib g slot d rest"
proof (induction rest)
  case Nil
  then show ?case by simp
next
  case (Cons w rest)
  show ?case
  proof (cases "SetString g (span slot) (word_s w)")
    case None
    with Cons.prems show ?thesis by simp
  next
    case (Some g1)
    from CommitSlot_words_shift [OF Some] Cons.IH [OF Cons.prems]
    have "CommitSlot_words n lib g1 slot d words rest = CommitSlot_words_spec n lib g slot d rest"
      by simp
    with Some Cons.prems show ?thesis by simp
  qed
qed

lemma CommitSlot_eq_spec: "CommitSlot n lib g slot d = CommitSlot_spec n lib g slot d"
proof (cases "FindWord lib (sPattern slot)")
  case None
  then show ?thesis by (simp add: CommitSlot_spec_def)
next
  case (Some words)
  show ?thesis
  proof (cases "words = []")
    case True
    with Some show ?thesis by (simp add: CommitSlot_spec_def)
  next
    case False
    with Some CommitSlot_words_eq_spec [OF False] show ?thesis
      by (simp add: CommitSlot_spec_def)
  qed
qed

declare CommitSlot.simps [simp del]

lemma CommitSlot_words_spec_emits:
  "g' \<in> set (fst (CommitSlot_words_spec n lib g slot d rest)) \<Longrightarrow>
   \<exists>w \<in> set rest. \<exists>g1. SetString g (span slot) (word_s w) = Some g1
      \<and> g' \<in> set (fst (Loop n lib g1 d))"
proof (induction rest)
  case Nil
  then show ?case by simp
next
  case (Cons w rest)
  show ?case
  proof (cases "SetString g (span slot) (word_s w)")
    case None
    with Cons.prems show ?thesis by simp
  next
    case (Some g1)
    obtain out e where l: "Loop n lib g1 d = (out, e)" by (cases "Loop n lib g1 d")
    obtain out' e' where c: "CommitSlot_words_spec n lib g slot d rest = (out', e')"
      by (cases "CommitSlot_words_spec n lib g slot d rest")
    from Cons.prems Some l c have "g' \<in> set out \<or> g' \<in> set out'"
      by (cases e) auto
    then show ?thesis
    proof
      assume "g' \<in> set out"
      with Some l show ?thesis by auto
    next
      assume "g' \<in> set out'"
      with c Cons.IH show ?thesis by auto
    qed
  qed
qed

text \<open>
  The node that emits its grid: every span can be read, the full slots are keys of the
  index and pairwise distinct, and no slot is partial or empty.
\<close>

definition terminal :: "Library \<Rightarrow> Grid \<Rightarrow> bool" where
  "terminal lib g \<longleftrightarrow>
     (\<forall>sp \<in> set (vecSpans g). readable g sp)
     \<and> (\<forall>sp \<in> set (fulls g). IsWord lib (span_string g sp))
     \<and> distinct (map (span_string g) (fulls g))
     \<and> partials g = [] \<and> empties g = []"

text \<open>
  The induction over the search tree: a property of the root that every commit preserves
  holds of every emitted grid, and every emitted grid passed the checks of its node.
\<close>

lemma Loop_emits:
  assumes step: "\<And>g sp words w g1. Inv g \<Longrightarrow> sp \<in> set (vecSpans g) \<Longrightarrow> readable g sp \<Longrightarrow>
      IsPartial (attr_of (span_string g sp)) \<Longrightarrow> FindWord lib (span_string g sp) = Some words \<Longrightarrow>
      w \<in> set words \<Longrightarrow> SetString g sp (word_s w) = Some g1 \<Longrightarrow> Inv g1"
  shows "Inv g \<Longrightarrow> g' \<in> set (fst (Loop n lib g d)) \<Longrightarrow> Inv g' \<and> terminal lib g'"
proof (induction n arbitrary: g d)
  case 0
  then show ?case by simp
next
  case (Suc n)
  show ?case
  proof (cases "partials g = []")
    case True
    with Suc.prems(2) have "g' = g \<and> terminal lib g"
      by (auto simp: Loop_Suc terminal_def split: if_splits)
    with Suc.prems(1) show ?thesis by simp
  next
    case False
    let ?sp = "hd (partials g)"
    from False have "?sp \<in> set (partials g)" by simp
    then have sp: "?sp \<in> set (vecSpans g)" "IsPartial (attr_of (span_string g ?sp))"
      by (simp_all add: partials_def)
    from Suc.prems(2) False have r: "\<forall>sp \<in> set (vecSpans g). readable g sp"
      and em: "g' \<in> set (fst (CommitSlot_spec n lib g (slot_of g ?sp) (d + 1)))"
      by (auto simp: Loop_Suc CommitSlot_eq_spec split: if_splits)
    from em obtain words where f: "FindWord lib (span_string g ?sp) = Some words"
      and em': "g' \<in> set (fst (CommitSlot_words_spec n lib g (slot_of g ?sp) (d + 1) words))"
      by (auto simp: CommitSlot_spec_def slot_of_def split: option.splits)
    from CommitSlot_words_spec_emits [OF em'] obtain w g1 where
      w: "w \<in> set words" "SetString g ?sp (word_s w) = Some g1"
      "g' \<in> set (fst (Loop n lib g1 (d + 1)))"
      by (auto simp: slot_of_def)
    from step [OF Suc.prems(1) sp(1) _ sp(2) f w(1,2)] r sp(1) have "Inv g1" by blast
    from Suc.IH [OF this w(3)] show ?thesis .
  qed
qed


definition blank_row :: Grid where
  "blank_row = the (FillSpans (LoadFromFile [''.....''] (Grid_new ''0'')))"

lemma bucket_lengths:
  assumes "lib_inv lib" "FindWord lib k = Some words" "w \<in> set words"
  shows "length (word_s w) = length k"
proof -
  from FindWord_Some [OF assms(1,2)] assms(3) have "k \<in> patterns_of w" by simp
  then show ?thesis by (auto simp: patterns_of_def)
qed

text \<open>What a write leaves in the grid: the word along the span, and every other cell as it was.\<close>

lemma SetString_reads_back:
  assumes "SetString g sp w = Some g1"
  shows "GetString g1 sp Attribute_new = Some (w, attr_of w)"
proof -
  note S = SetString_spec [OF assms]
  then have sh: "shape g1 = shape g" and n: "nLen sp = int (length w)" by simp_all
  note sc = shape_cong [OF sh]
  from S have r: "readable g1 sp" by (simp add: readable_def sc)
  have "span_string g1 sp = w"
  proof (rule nth_equalityI)
    show "length (span_string g1 sp) = length w" using n by simp
    fix k assume "k < length (span_string g1 sp)"
    then have k: "0 \<le> int k" "int k < nLen sp" by simp_all
    from nth_span_string [OF k, of g1] S k show "span_string g1 sp ! k = w ! k" by simp
  qed
  with r show ?thesis by (simp add: GetString_eq)
qed

lemma SetString_frame:
  assumes "SetString g sp w = Some g1" "\<not> covers sp q"
  shows "GetChar g1 q = GetChar g q"
proof -
  note S = SetString_spec [OF assms(1)]
  then have sh: "shape g1 = shape g" by simp
  note sc = shape_cong [OF sh]
  show ?thesis
  proof (cases "valid g q")
    case True
    then have "in_lines g q" by (rule valid_in_lines)
    with S assms(2) have "cell_at g1 q = cell_at g q" by simp
    with True show ?thesis by (simp add: GetChar_valid sc)
  next
    case False
    then show ?thesis by (simp add: GetChar_valid sc)
  qed
qed

definition square_engine :: Engine where
  "square_engine = the (Init [''A.'', ''..''] [''AB'', ''CD'', ''AC'', ''BD''])"

definition square_slot :: Slot where
  "square_slot = \<lparr>span = \<lparr>point = \<lparr>nRow = 0, nCol = 0\<rparr>, nLen = 2, bVert = False\<rparr>, sPattern = ''A.''\<rparr>"

text \<open>
  C9. \<^verbatim>\<open>CommitSlot\<close>, which writes every candidate into the grid the previous
  candidate left, computes what the write, recurse and restore loop of the specification
  computes: the same solutions in the same order and the same ending; and the node of
  \<^verbatim>\<open>Loop\<close> is the node that hands its first partial slot to the loop of the
  specification. The reasons: a write leaves the written word along the slot, which is
  what the recursive call reads there, and leaves the spans and every cell outside the slot
  as they were; a word written over a written word of the same length leaves the grid that
  the second word alone gives, the state before any commit with only that word written;
  the candidates of a loaded library for a pattern all have the length of the pattern; and
  the pattern of a slot has the length of the span it was read from.
\<close>

theorem CommitSlot_refines_spec:
  "CommitSlot fuel lib grid slot nDepth = CommitSlot_spec fuel lib grid slot nDepth
   \<and> (\<forall>sWord g1. SetString grid (span slot) sWord = Some g1 \<longrightarrow>
         map_option fst (GetString g1 (span slot) Attribute_new) = Some sWord
         \<and> vecSpans g1 = vecSpans grid
         \<and> (\<forall>p. \<not> covers (span slot) p \<longrightarrow> GetChar g1 p = GetChar grid p))
   \<and> (\<forall>sWord sWord' g1. SetString grid (span slot) sWord = Some g1 \<and> length sWord' = length sWord
         \<longrightarrow> SetString g1 (span slot) sWord' = SetString grid (span slot) sWord')
   \<and> (\<forall>f n words. ReadFromFile f n Library_new = Some lib \<and> FindWord lib (sPattern slot) = Some words
         \<longrightarrow> (\<forall>w \<in> set words. length (word_s w) = length (sPattern slot)))
   \<and> (\<forall>sp s a. GetString grid sp Attribute_new = Some (s, a) \<longrightarrow> int (length s) = nLen sp)
   \<and> Loop (Suc fuel) lib grid nDepth =
       (case classify grid (vecSpans grid) ([], [], []) of
          None \<Rightarrow> ([], Aborted)
        | Some (vecEmptySlots, vecPartialSlots, vecFullSlots) \<Rightarrow>
            if \<not> list_all (\<lambda>w. IsWord lib (sPattern w)) vecFullSlots then ([], Returned)
            else
              (case check_duplicates vecFullSlots {} of
                 None \<Rightarrow> ([], Aborted)
               | Some False \<Rightarrow> ([], Returned)
               | Some True \<Rightarrow>
                   if vecPartialSlots = [] \<and> vecEmptySlots = [] then ([grid], Returned)
                   else if vecPartialSlots = [] then ([], Aborted)
                   else CommitSlot_spec fuel lib grid (vecPartialSlots ! 0) (nDepth + 1)))"
proof (intro conjI allI impI ballI)
  show "CommitSlot fuel lib grid slot nDepth = CommitSlot_spec fuel lib grid slot nDepth"
    by (rule CommitSlot_eq_spec)
next
  fix sWord g1 assume s: "SetString grid (span slot) sWord = Some g1"
  from SetString_reads_back [OF s]
  show "map_option fst (GetString g1 (span slot) Attribute_new) = Some sWord" by simp
  from SetString_spec [OF s] show "vecSpans g1 = vecSpans grid" by simp
  fix p assume "\<not> covers (span slot) p"
  with s show "GetChar g1 p = GetChar grid p" by (rule SetString_frame)
next
  fix sWord sWord' :: string and g1
  assume "SetString grid (span slot) sWord = Some g1 \<and> length sWord' = length sWord"
  then show "SetString g1 (span slot) sWord' = SetString grid (span slot) sWord'"
    using SetString_overwrite by blast
next
  fix f n words w
  assume "ReadFromFile f n Library_new = Some lib \<and> FindWord lib (sPattern slot) = Some words"
    and "w \<in> set words"
  then show "length (word_s w) = length (sPattern slot)"
    using bucket_lengths [OF loaded_inv] by blast
next
  fix sp s a assume "GetString grid sp Attribute_new = Some (s, a)"
  then show "int (length s) = nLen sp"
    by (auto simp: GetString_eq readable_def split: if_splits)
next
  show "Loop (Suc fuel) lib grid nDepth =
       (case classify grid (vecSpans grid) ([], [], []) of
          None \<Rightarrow> ([], Aborted)
        | Some (vecEmptySlots, vecPartialSlots, vecFullSlots) \<Rightarrow>
            if \<not> list_all (\<lambda>w. IsWord lib (sPattern w)) vecFullSlots then ([], Returned)
            else
              (case check_duplicates vecFullSlots {} of
                 None \<Rightarrow> ([], Aborted)
               | Some False \<Rightarrow> ([], Returned)
               | Some True \<Rightarrow>
                   if vecPartialSlots = [] \<and> vecEmptySlots = [] then ([grid], Returned)
                   else if vecPartialSlots = [] then ([], Aborted)
                   else CommitSlot_spec fuel lib grid (vecPartialSlots ! 0) (nDepth + 1)))"
    unfolding Loop.simps(2) Let_def CommitSlot_eq_spec
    by (simp split: option.splits bool.splits prod.splits)
qed

theorem CommitSlot_refines_spec_witness:
  "Init [''A.'', ''..''] [''AB'', ''CD'', ''AC'', ''BD''] = Some square_engine
   \<and> FindWord (m_lib square_engine) (sPattern square_slot) = Some [Word ''AB'', Word ''AC'']
   \<and> map_option vecLines (SetString (m_grid square_engine) (span square_slot) ''AB'')
        = Some [''AB'', ''..'']
   \<and> map_option vecLines
        (SetString (the (SetString (m_grid square_engine) (span square_slot) ''AB''))
           (span square_slot) ''AC'')
        = Some [''AC'', ''..'']
   \<and> map_option fst
        (GetString (the (SetString (m_grid square_engine) (span square_slot) ''AB''))
           (span square_slot) Attribute_new)
        = Some ''AB''
   \<and> CommitSlot 4 (m_lib square_engine) (m_grid square_engine) square_slot 1
        = CommitSlot_spec 4 (m_lib square_engine) (m_grid square_engine) square_slot 1
   \<and> map vecLines (fst (CommitSlot_spec 4 (m_lib square_engine) (m_grid square_engine) square_slot 1))
        = [[''AB'', ''CD''], [''AC'', ''BD'']]
   \<and> snd (CommitSlot_spec 4 (m_lib square_engine) (m_grid square_engine) square_slot 1) = Returned
   \<and> map vecLines (fst (Loop 5 (m_lib square_engine) (m_grid square_engine) 0))
        = [[''AB'', ''CD''], [''AC'', ''BD'']]"
proof -
  let ?lib = "m_lib square_engine" and ?g = "m_grid square_engine" and ?sp = "span square_slot"
  let ?g1 = "the (SetString ?g ?sp ''AB'')"
  have ne: "Init [''A.'', ''..''] [''AB'', ''CD'', ''AC'', ''BD''] \<noteq> None" by code_simp
  then have i: "Init [''A.'', ''..''] [''AB'', ''CD'', ''AC'', ''BD''] = Some square_engine"
    by (simp add: square_engine_def)
  have b: "FindWord ?lib (sPattern square_slot) = Some [Word ''AB'', Word ''AC'']"
    unfolding square_engine_def square_slot_def by code_simp
  have w1: "map_option vecLines (SetString ?g ?sp ''AB'') = Some [''AB'', ''..'']"
    unfolding square_engine_def square_slot_def by code_simp
  then have s1: "SetString ?g ?sp ''AB'' = Some ?g1" by auto
  have w2: "map_option vecLines (SetString ?g ?sp ''AC'') = Some [''AC'', ''..'']"
    unfolding square_engine_def square_slot_def by code_simp
  note th = CommitSlot_refines_spec [of 4 ?lib ?g square_slot 1]
  from th have "\<forall>sWord sWord' g1. SetString ?g ?sp sWord = Some g1 \<and> length sWord' = length sWord
      \<longrightarrow> SetString g1 ?sp sWord' = SetString ?g ?sp sWord'" by blast
  from this [rule_format, of "''AB''" ?g1 "''AC''"] s1
  have "SetString ?g1 ?sp ''AC'' = SetString ?g ?sp ''AC''" by simp
  with w2 have c1: "map_option vecLines (SetString ?g1 ?sp ''AC'') = Some [''AC'', ''..'']"
    by simp
  from th have "\<forall>sWord g1. SetString ?g ?sp sWord = Some g1 \<longrightarrow>
      map_option fst (GetString g1 ?sp Attribute_new) = Some sWord
      \<and> vecSpans g1 = vecSpans ?g
      \<and> (\<forall>p. \<not> covers ?sp p \<longrightarrow> GetChar g1 p = GetChar ?g p)" by blast
  from this [rule_format, of "''AB''" ?g1] s1
  have c2: "map_option fst (GetString ?g1 ?sp Attribute_new) = Some ''AB''" by simp
  from th have c3: "CommitSlot 4 ?lib ?g square_slot 1 = CommitSlot_spec 4 ?lib ?g square_slot 1"
    by blast
  have ev: "map vecLines (fst (CommitSlot 4 ?lib ?g square_slot 1)) = [[''AB'', ''CD''], [''AC'', ''BD'']]"
    unfolding square_engine_def square_slot_def by code_simp
  have en: "snd (CommitSlot 4 ?lib ?g square_slot 1) = Returned"
    unfolding square_engine_def square_slot_def by code_simp
  have lp: "map vecLines (fst (Loop 5 ?lib ?g 0)) = [[''AB'', ''CD''], [''AC'', ''BD'']]"
    unfolding square_engine_def by code_simp
  from i b w1 c1 c2 c3 ev en lp show ?thesis by simp
qed

text \<open>
  C3. On the grid of one row of five blanks with the dictionary HELLO, WORLD, the engine
  initialises, and the first node of the search finds six spans, all of them empty (the
  row, and the five columns of one cell): no slot is partial, and the node aborts on its
  assertion that a partial slot exists, with no solution emitted, whatever the depth
  allowed.
\<close>

theorem blank_row_aborts:
  "\<exists>e. Init [''.....''] [''HELLO'', ''WORLD''] = Some e
     \<and> m_grid e = blank_row
     \<and> snd (Search (Suc fuel) e) = ([], Aborted)"
proof -
  let ?G = "LoadFromFile [''.....''] (Grid_new ''0'')"
  have c: "CheckSize ?G = Some ()" by code_simp
  have "FillSpans ?G \<noteq> None" by code_simp
  then have f: "FillSpans ?G = Some blank_row" by (simp add: blank_row_def)
  have "PrintSpans blank_row \<noteq> None" unfolding blank_row_def by code_simp
  then obtain out where p: "PrintSpans blank_row = Some out" by blast
  have m: "MaxSize blank_row = 5" unfolding blank_row_def by code_simp
  obtain lib where r: "ReadFromFile [''HELLO'', ''WORLD''] 5 Library_new = Some lib"
    using ReadFromFile_total [of 5 "[''HELLO'', ''WORLD'']" Library_new] by auto
  let ?e = "\<lparr>m_grid = blank_row, m_lib = lib, m_setStr = {}\<rparr>"
  have i: "Init [''.....''] [''HELLO'', ''WORLD''] = Some ?e"
    by (simp add: Init_def c f p m r del: ReadFromFile.simps)
  have "map_option (\<lambda>(E, P, F). (E \<noteq> [], P, F))
      (classify blank_row (vecSpans blank_row) ([], [], [])) = Some (True, [], [])"
    unfolding blank_row_def by code_simp
  then obtain E where E: "classify blank_row (vecSpans blank_row) ([], [], []) = Some (E, [], [])"
    "E \<noteq> []" by auto
  have "Loop (Suc fuel) lib blank_row 0 = ([], Aborted)"
    using E by (simp add: Loop.simps(2))
  with i show ?thesis by (auto simp: Search_def)
qed

subsection \<open>What a commit changes\<close>

lemma pattern_agrees:
  assumes "k \<in> patterns_of w" "j < length k" "k ! j \<noteq> CHR ''.''"
  shows "word_s w ! j = k ! j"
  using assms by (auto simp: patterns_of_def nth_mask_pattern split: if_splits)

lemma commit_cells:
  assumes inv: "lib_inv lib" and f: "FindWord lib (span_string g sp) = Some words"
    and w: "w \<in> set words" and s: "SetString g sp (word_s w) = Some g1"
    and q: "in_lines g q"
  shows "cell_at g q \<noteq> CHR ''.'' \<Longrightarrow> cell_at g1 q = cell_at g q"
    and "cell_at g1 q = cell_at g q \<or> cell_at g1 q \<in> set (word_s w)"
proof -
  note S = SetString_spec [OF s]
  from FindWord_Some [OF inv f] w have pat: "span_string g sp \<in> patterns_of w" by simp
  have cov: "cell_at g1 q = word_s w ! nat i \<and> nat i < length (word_s w)
      \<and> (cell_at g q \<noteq> CHR ''.'' \<longrightarrow> word_s w ! nat i = cell_at g q)"
    if i: "0 \<le> i" "i < nLen sp" "q = span_point sp i" for i
  proof -
    from S i have a: "cell_at g1 q = word_s w ! nat i" and l: "nat i < length (word_s w)"
      by auto
    have "span_string g sp ! nat i = cell_at g q"
      using nth_span_string [OF i(1,2)] i(3) by simp
    moreover have "nat i < length (span_string g sp)" using i by simp
    ultimately have "cell_at g q \<noteq> CHR ''.'' \<longrightarrow> word_s w ! nat i = cell_at g q"
      using pattern_agrees [OF pat, of "nat i"] by auto
    with a l show ?thesis by simp
  qed
  show "cell_at g1 q = cell_at g q" if "cell_at g q \<noteq> CHR ''.''"
  proof (cases "covers sp q")
    case True
    then obtain i where "0 \<le> i" "i < nLen sp" "q = span_point sp i" by (auto simp: covers_iff)
    from cov [OF this] that show ?thesis by simp
  next
    case False
    with S q show ?thesis by simp
  qed
  show "cell_at g1 q = cell_at g q \<or> cell_at g1 q \<in> set (word_s w)"
  proof (cases "covers sp q")
    case True
    then obtain i where "0 \<le> i" "i < nLen sp" "q = span_point sp i" by (auto simp: covers_iff)
    from cov [OF this] show ?thesis by auto
  next
    case False
    with S q show ?thesis by simp
  qed
qed

lemma Init_facts:
  assumes "Init sGridFile sLibraryFile = Some e"
  shows "CheckSize (m_grid e) = Some ()"
    and "vecLines (m_grid e) = vecLines (LoadFromFile sGridFile (Grid_new ''0''))"
    and "\<forall>sp \<in> set (vecSpans (m_grid e)). maximal_span (m_grid e) sp"
    and "ReadFromFile sLibraryFile (MaxSize (m_grid e)) Library_new = Some (m_lib e)"
    and "lib_inv (m_lib e)"
proof -
  let ?G = "LoadFromFile sGridFile (Grid_new ''0'')"
  from assms obtain g lib where c: "CheckSize ?G = Some ()" and f: "FillSpans ?G = Some g"
    and r: "ReadFromFile sLibraryFile (MaxSize g) Library_new = Some lib"
    and e: "e = \<lparr>m_grid = g, m_lib = lib, m_setStr = {}\<rparr>"
    by (auto simp: Init_def Let_def split: bind_splits)
  have v: "vecSpans ?G = []"
  proof -
    have "vecSpans (fold (\<lambda>line g. if line \<noteq> [] \<and> line ! 0 \<noteq> CHR ''/''
        then g\<lparr>vecLines := vecLines g @ [line]\<rparr> else g) f g) = vecSpans g" for f and g :: Grid
      by (induction f arbitrary: g) simp_all
    then show ?thesis by (simp add: LoadFromFile_def Grid_new_def)
  qed
  from FillSpans_spec [OF c v] f obtain hs vs where
    g: "g = ?G\<lparr>vecSpans := hs @ vs\<rparr>"
    and H: "spans_from ?G False Point_new hs" and V: "spans_from ?G True Point_new vs"
    by auto
  have bm: "block_map g = block_map ?G" by (simp add: g)
  show "CheckSize (m_grid e) = Some ()"
    using c CheckSize_cong [OF bm] by (simp add: e)
  show "vecLines (m_grid e) = vecLines ?G" by (simp add: e g)
  have "maximal_span g = maximal_span ?G"
    using block_map_cong [OF bm] by (simp add: maximal_span_def wall_def fun_eq_iff)
  with H V show "\<forall>sp \<in> set (vecSpans (m_grid e)). maximal_span (m_grid e) sp"
    by (auto simp: e g spans_from_def)
  show "ReadFromFile sLibraryFile (MaxSize (m_grid e)) Library_new = Some (m_lib e)"
    using r by (simp add: e)
  then show "lib_inv (m_lib e)" by (rule loaded_inv)
qed

definition cat_engine :: Engine where
  "cat_engine = the (Init [''C.T''] [''c'', ''t'', ''a'', ''cat''])"

definition hash_engine :: Engine where
  "hash_engine = the (Init [''A.''] [''A'', ''A#''])"

text \<open>
  C4, as the code has it. In every solution the engine emits, every cell of the input
  grid that is not blank holds the character it held: the blocks stay blocks and the
  pre-supplied letters stay. When no loaded word contains the block character, the blocks
  of the solution are exactly the blocks of the input. The grid has the shape of the
  input, and \<^verbatim>\<open>Search\<close> leaves the engine, and so its grid, as it was.
\<close>

theorem Search_preserves_input:
  assumes "Init sGridFile sLibraryFile = Some e"
    and "g' \<in> set (fst (snd (Search fuel e)))"
  shows "fst (Search fuel e) = e
    \<and> map length (vecLines g') = map length (vecLines (m_grid e))
    \<and> (\<forall>p c. GetChar (m_grid e) p = Some c \<and> c \<noteq> CHR ''.'' \<longrightarrow> GetChar g' p = Some c)
    \<and> ((\<forall>w \<in> set (m_vecWords (m_lib e)). CHR ''#'' \<notin> set (word_s w)) \<longrightarrow>
          (\<forall>p. GetChar g' p = Some (CHR ''#'') \<longleftrightarrow> GetChar (m_grid e) p = Some (CHR ''#'')))"
proof -
  let ?g0 = "m_grid e" and ?lib = "m_lib e"
  let ?nohash = "\<forall>w \<in> set (m_vecWords ?lib). CHR ''#'' \<notin> set (word_s w)"
  define Inv where "Inv g \<longleftrightarrow> shape g = shape ?g0
      \<and> (\<forall>q. in_lines ?g0 q \<and> cell_at ?g0 q \<noteq> CHR ''.'' \<longrightarrow> cell_at g q = cell_at ?g0 q)
      \<and> (?nohash \<longrightarrow> (\<forall>q. in_lines ?g0 q \<and> cell_at g q = CHR ''#'' \<longrightarrow> cell_at ?g0 q = CHR ''#''))"
    for g
  note inv = Init_facts(5) [OF assms(1)]
  have step: "Inv g1" if "Inv g" and f: "FindWord ?lib (span_string g sp) = Some words"
    and w: "w \<in> set words" and s: "SetString g sp (word_s w) = Some g1" for g sp words w g1
  proof -
    from \<open>Inv g\<close> have sh: "shape g = shape ?g0" by (simp add: Inv_def)
    note il = shape_cong [OF sh]
    from SetString_spec [OF s] sh have 1: "shape g1 = shape ?g0" by simp
    have 2: "cell_at g1 q = cell_at ?g0 q" if q: "in_lines ?g0 q" "cell_at ?g0 q \<noteq> CHR ''.''" for q
    proof -
      from \<open>Inv g\<close> q have "cell_at g q = cell_at ?g0 q" by (simp add: Inv_def)
      moreover from q il have "in_lines g q" by simp
      ultimately show ?thesis using commit_cells(1) [OF inv f w s] q(2) by simp
    qed
    have 3: "cell_at ?g0 q = CHR ''#''"
      if nh: ?nohash and q: "in_lines ?g0 q" "cell_at g1 q = CHR ''#''" for q
    proof -
      from q il have "in_lines g q" by simp
      from commit_cells(2) [OF inv f w s this]
      have "cell_at g1 q = cell_at g q \<or> cell_at g1 q \<in> set (word_s w)" .
      moreover from FindWord_Some [OF inv f] w have "w \<in> set (m_vecWords ?lib)" by simp
      ultimately have "cell_at g q = CHR ''#''" using nh q(2) by auto
      with \<open>Inv g\<close> nh q(1) show ?thesis by (simp add: Inv_def)
    qed
    from 1 2 3 show ?thesis unfolding Inv_def by blast
  qed
  have "Inv ?g0" by (simp add: Inv_def)
  moreover from assms(2) have "g' \<in> set (fst (Loop fuel ?lib ?g0 0))" by (simp add: Search_def)
  ultimately have I: "Inv g'"
    using Loop_emits [of Inv ?lib ?g0 g' fuel 0] step by blast
  then have sh: "shape g' = shape ?g0" by (simp add: Inv_def)
  note vc = shape_cong [OF sh]
  have a: "GetChar g' p = Some c" if "GetChar ?g0 p = Some c \<and> c \<noteq> CHR ''.''" for p c
  proof -
    from that have v: "valid ?g0 p" and c: "cell_at ?g0 p = c" "c \<noteq> CHR ''.''"
      by (auto simp: GetChar_valid split: if_splits)
    from I valid_in_lines [OF v] c have "cell_at g' p = c" by (simp add: Inv_def)
    with v vc show ?thesis by (simp add: GetChar_valid)
  qed
  have b: "GetChar g' p = Some (CHR ''#'') \<longleftrightarrow> GetChar ?g0 p = Some (CHR ''#'')"
    if nh: ?nohash for p
  proof
    assume "GetChar ?g0 p = Some (CHR ''#'')"
    with a [of p "CHR ''#''"] show "GetChar g' p = Some (CHR ''#'')" by simp
  next
    assume "GetChar g' p = Some (CHR ''#'')"
    then have v: "valid ?g0 p" and c: "cell_at g' p = CHR ''#''"
      by (auto simp: GetChar_valid vc split: if_splits)
    from I nh valid_in_lines [OF v] c have "cell_at ?g0 p = CHR ''#''" by (simp add: Inv_def)
    with v show "GetChar ?g0 p = Some (CHR ''#'')" by (simp add: GetChar_valid)
  qed
  from sh a b show ?thesis by (auto simp: Search_def shape_def)
qed

theorem Search_preserves_input_witness:
  "Init [''C.T''] [''c'', ''t'', ''a'', ''cat''] = Some cat_engine
   \<and> map vecLines (fst (snd (Search 3 cat_engine))) = [[''CAT'']]
   \<and> GetChar (hd (fst (snd (Search 3 cat_engine)))) \<lparr>nRow = 0, nCol = 2\<rparr> = Some (CHR ''T'')"
proof -
  have ne: "Init [''C.T''] [''c'', ''t'', ''a'', ''cat''] \<noteq> None" by code_simp
  then have i: "Init [''C.T''] [''c'', ''t'', ''a'', ''cat''] = Some cat_engine"
    by (simp add: cat_engine_def)
  have ev: "map vecLines (fst (snd (Search 3 cat_engine))) = [[''CAT'']]"
    unfolding cat_engine_def by code_simp
  then have "fst (snd (Search 3 cat_engine)) \<noteq> []" by auto
  then have m: "hd (fst (snd (Search 3 cat_engine))) \<in> set (fst (snd (Search 3 cat_engine)))"
    by simp
  have g: "GetChar (m_grid cat_engine) \<lparr>nRow = 0, nCol = 2\<rparr> = Some (CHR ''T'')"
    unfolding cat_engine_def by code_simp
  from Search_preserves_input [OF i m] g
  have "GetChar (hd (fst (snd (Search 3 cat_engine)))) \<lparr>nRow = 0, nCol = 2\<rparr> = Some (CHR ''T'')"
    by simp
  with i ev show ?thesis by simp
qed

theorem Search_preserves_input_counterexample:
  "Init [''A.''] [''A'', ''A#''] \<noteq> None
   \<and> GetChar (m_grid hash_engine) \<lparr>nRow = 0, nCol = 1\<rparr> = Some (CHR ''.'')
   \<and> map vecLines (fst (snd (Search 2 hash_engine))) = [[''A#'']]
   \<and> GetChar (hd (fst (snd (Search 2 hash_engine)))) \<lparr>nRow = 0, nCol = 1\<rparr> = Some (CHR ''#'')"
  unfolding hash_engine_def by code_simp


subsection \<open>Emitted grids\<close>

text \<open>
  The alphabet of cells, and the engine of the one-cell grid \<open>a\<close> with an empty
  dictionary.
\<close>

definition is_cell :: "char \<Rightarrow> bool" where
  "is_cell c \<longleftrightarrow> c = CHR ''#'' \<or> c = CHR ''.'' \<or> is_letter c"

definition lower_engine :: Engine where
  "lower_engine = the (Init [''a''] [])"

lemma IsWord_no_dot:
  assumes "lib_inv lib" "CHR ''.'' \<notin> set s"
  shows "IsWord lib s \<longleftrightarrow> Word s \<in> set (m_vecWords lib)"
proof
  assume "IsWord lib s"
  then obtain w where w: "w \<in> set (m_vecWords lib)" "s \<in> patterns_of w"
    by (auto simp: IsWord_iff [OF assms(1)])
  from no_dot_pattern [OF w(2) assms(2)] w(1) show "Word s \<in> set (m_vecWords lib)"
    by (cases w) simp
next
  assume "Word s \<in> set (m_vecWords lib)"
  then show "IsWord lib s"
    using self_pattern [of "Word s"] by (auto simp: IsWord_iff [OF assms(1)])
qed

lemma maximal_span_readable:
  assumes "maximal_span g sp"
  shows "readable g sp" and "1 \<le> nLen sp"
    and "0 \<le> i \<Longrightarrow> i < nLen sp \<Longrightarrow> cell_at g (span_point sp i) \<noteq> CHR ''#''"
  using assms
  by (auto simp: maximal_span_iff readable_def IsBlock_def GetChar_valid split: if_splits)

lemma terminal_classify:
  assumes "terminal lib g"
  shows "classify g (vecSpans g) ([], [], []) = Some ([], [], map (slot_of g) (fulls g))"
    and "list_all (\<lambda>w. IsWord lib (sPattern w)) (map (slot_of g) (fulls g))"
    and "check_duplicates (map (slot_of g) (fulls g)) {} = Some True"
proof -
  have p: "sPattern \<circ> slot_of g = span_string g"
    by (rule ext) (simp add: slot_of_def)
  from assms show "classify g (vecSpans g) ([], [], []) = Some ([], [], map (slot_of g) (fulls g))"
    by (simp add: terminal_def classify_eq empties_def partials_def fulls_def)
  from assms show "list_all (\<lambda>w. IsWord lib (sPattern w)) (map (slot_of g) (fulls g))"
    by (simp add: terminal_def list_all_iff slot_of_def)
  from assms show "check_duplicates (map (slot_of g) (fulls g)) {} = Some True"
    by (simp add: terminal_def check_duplicates_eq p)
qed

text \<open>
  C1, as the code has it. Every grid the engine emits has no empty and no partial slot,
  and its full slots passed the validity check and the uniqueness check of its node. When
  every cell of the input grid is a block, a blank or a letter and every loaded word
  consists of letters, every span of an emitted grid reads as a string of letters that is
  a word of the master list, and the strings of the spans are pairwise distinct.
\<close>

theorem emitted_grid_checked:
  assumes "Init sGridFile sLibraryFile = Some e"
    and "g' \<in> set (fst (snd (Search fuel e)))"
  shows "(\<exists>vecFullSlots. classify g' (vecSpans g') ([], [], []) = Some ([], [], vecFullSlots)
        \<and> list_all (\<lambda>w. IsWord (m_lib e) (sPattern w)) vecFullSlots
        \<and> check_duplicates vecFullSlots {} = Some True)
    \<and> vecSpans g' = vecSpans (m_grid e)
    \<and> ((\<forall>line \<in> set (vecLines (m_grid e)). \<forall>c \<in> set line. is_cell c)
         \<and> (\<forall>w \<in> set (m_vecWords (m_lib e)). \<forall>c \<in> set (word_s w). is_letter c) \<longrightarrow>
        (\<forall>sp \<in> set (vecSpans g'). \<exists>s a. GetString g' sp Attribute_new = Some (s, a)
            \<and> (\<forall>c \<in> set s. is_letter c) \<and> Word s \<in> set (m_vecWords (m_lib e)))
        \<and> distinct (map (\<lambda>sp. map_option fst (GetString g' sp Attribute_new)) (vecSpans g')))"
proof -
  let ?g0 = "m_grid e" and ?lib = "m_lib e"
  let ?alph = "(\<forall>line \<in> set (vecLines ?g0). \<forall>c \<in> set line. is_cell c)
      \<and> (\<forall>w \<in> set (m_vecWords ?lib). \<forall>c \<in> set (word_s w). is_letter c)"
  define Inv where "Inv g \<longleftrightarrow> shape g = shape ?g0 \<and> vecSpans g = vecSpans ?g0
      \<and> (?alph \<longrightarrow> (\<forall>sp \<in> set (vecSpans ?g0). \<forall>c \<in> set (span_string g sp).
            c = CHR ''.'' \<or> is_letter c))" for g
  note inv = Init_facts(5) [OF assms(1)]
  note mx = Init_facts(3) [OF assms(1)]
  have step: "Inv g1" if I: "Inv g" and f: "FindWord ?lib (span_string g sp0) = Some words"
    and w: "w \<in> set words" and s: "SetString g sp0 (word_s w) = Some g1" for g sp0 words w g1
  proof -
    from I have sh: "shape g = shape ?g0" by (simp add: Inv_def)
    note il = shape_cong [OF sh]
    from SetString_spec [OF s] I have 1: "shape g1 = shape ?g0" "vecSpans g1 = vecSpans ?g0"
      by (simp_all add: Inv_def)
    have 2: "c = CHR ''.'' \<or> is_letter c"
      if al: ?alph and sp: "sp \<in> set (vecSpans ?g0)" and c: "c \<in> set (span_string g1 sp)" for sp c
    proof -
      from c obtain i where i: "0 \<le> i" "i < nLen sp" "c = cell_at g1 (span_point sp i)"
        by (auto simp: in_span_string)
      let ?q = "span_point sp i"
      from mx sp have "readable ?g0 sp" by (auto intro: maximal_span_readable)
      with i have "valid ?g0 ?q" by (simp add: readable_def)
      then have "in_lines g ?q" using il by (simp add: valid_in_lines)
      from commit_cells(2) [OF inv f w s this]
      have "cell_at g1 ?q = cell_at g ?q \<or> cell_at g1 ?q \<in> set (word_s w)" .
      moreover from i have "cell_at g ?q \<in> set (span_string g sp)"
        by (auto simp: in_span_string)
      with I al sp have "cell_at g ?q = CHR ''.'' \<or> is_letter (cell_at g ?q)"
        unfolding Inv_def by blast
      moreover from FindWord_Some [OF inv f] w have "w \<in> set (m_vecWords ?lib)" by simp
      with al have "\<forall>c \<in> set (word_s w). is_letter c" by blast
      ultimately show ?thesis unfolding i(3) by auto
    qed
    from 1 2 show ?thesis unfolding Inv_def by blast
  qed
  have I0: "Inv ?g0"
    unfolding Inv_def
  proof (intro conjI impI ballI)
    fix sp c assume al: ?alph and sp: "sp \<in> set (vecSpans ?g0)"
      and c: "c \<in> set (span_string ?g0 sp)"
    from c obtain i where i: "0 \<le> i" "i < nLen sp" "c = cell_at ?g0 (span_point sp i)"
      by (auto simp: in_span_string)
    let ?q = "span_point sp i"
    from mx sp have m: "maximal_span ?g0 sp" by blast
    from maximal_span_readable(1) [OF m] i have "valid ?g0 ?q" by (simp add: readable_def)
    then have "in_lines ?g0 ?q" by (rule valid_in_lines)
    then have "c \<in> set (vecLines ?g0 ! nat (nRow ?q))" "vecLines ?g0 ! nat (nRow ?q) \<in> set (vecLines ?g0)"
      unfolding i(3) by (simp_all add: in_lines_def cell_at_def)
    with al have "is_cell c" by blast
    moreover from maximal_span_readable(3) [OF m i(1,2)] have "c \<noteq> CHR ''#''" by (simp add: i(3))
    ultimately show "c = CHR ''.'' \<or> is_letter c" by (simp add: is_cell_def)
  qed simp_all
  from assms(2) have "g' \<in> set (fst (Loop fuel ?lib ?g0 0))" by (simp add: Search_def)
  with I0 have IT: "Inv g'" "terminal ?lib g'"
    using Loop_emits [of Inv ?lib ?g0 g' fuel 0] step by blast+
  note tc = terminal_classify [OF IT(2)]
  have A: "\<exists>vecFullSlots. classify g' (vecSpans g') ([], [], []) = Some ([], [], vecFullSlots)
        \<and> list_all (\<lambda>w. IsWord ?lib (sPattern w)) vecFullSlots
        \<and> check_duplicates vecFullSlots {} = Some True"
    using tc by blast
  from IT(1) have B: "vecSpans g' = vecSpans ?g0" by (simp add: Inv_def)
  have C: "(\<forall>sp \<in> set (vecSpans g'). \<exists>s a. GetString g' sp Attribute_new = Some (s, a)
            \<and> (\<forall>c \<in> set s. is_letter c) \<and> Word s \<in> set (m_vecWords ?lib))
        \<and> distinct (map (\<lambda>sp. map_option fst (GetString g' sp Attribute_new)) (vecSpans g'))"
    if al: ?alph
  proof -
    from IT(1) have "?alph \<longrightarrow> (\<forall>sp \<in> set (vecSpans ?g0). \<forall>c \<in> set (span_string g' sp).
        c = CHR ''.'' \<or> is_letter c)"
      by (simp add: Inv_def)
    from this al have chars: "\<forall>sp \<in> set (vecSpans ?g0). \<forall>c \<in> set (span_string g' sp).
        c = CHR ''.'' \<or> is_letter c"
      by (rule mp)
    have full: "(\<forall>c \<in> set (span_string g' sp). is_letter c) \<and> sp \<in> set (fulls g')"
      if sp: "sp \<in> set (vecSpans g')" for sp
    proof -
      let ?s = "span_string g' sp"
      from sp B mx have n1: "1 \<le> nLen sp" by (auto intro: maximal_span_readable)
      have ne: "?s \<noteq> []"
      proof
        assume "?s = []"
        then have "length ?s = 0" by (rule arg_cong [where f = length, THEN trans]) simp
        with n1 show False by simp
      qed
      from chars sp B have ch: "\<forall>c \<in> set ?s. c = CHR ''.'' \<or> is_letter c"
        by simp
      have nodot: "CHR ''.'' \<notin> set ?s"
      proof
        assume "CHR ''.'' \<in> set ?s"
        then have "IsEmpty (attr_of ?s) \<or> IsPartial (attr_of ?s)"
          by (auto simp: attr_of_def IsEmpty_def IsPartial_def)
        with sp have "sp \<in> set (empties g') \<or> sp \<in> set (partials g')"
          by (auto simp: empties_def partials_def)
        with IT(2) show False by (auto simp: terminal_def)
      qed
      have l: "\<forall>c \<in> set ?s. is_letter c"
      proof
        fix c assume c: "c \<in> set ?s"
        with nodot have nd: "c \<noteq> CHR ''.''" by (metis)
        from ch c have "c = CHR ''.'' \<or> is_letter c" by (rule bspec)
        with nd show "is_letter c" by simp
      qed
      with ne have "\<exists>c \<in> set ?s. is_letter c" by (cases ?s) auto
      with nodot have "IsFull (attr_of ?s)" by (simp add: attr_of_def IsFull_def)
      with sp l show ?thesis by (simp add: fulls_def)
    qed
    have gs: "GetString g' sp Attribute_new = Some (span_string g' sp, attr_of (span_string g' sp))"
      if "sp \<in> set (vecSpans g')" for sp
      using that IT(2) by (simp add: GetString_eq terminal_def)
    have 1: "\<exists>s a. GetString g' sp Attribute_new = Some (s, a)
        \<and> (\<forall>c \<in> set s. is_letter c) \<and> Word s \<in> set (m_vecWords ?lib)"
      if sp: "sp \<in> set (vecSpans g')" for sp
    proof -
      let ?s = "span_string g' sp"
      from full [OF sp] have l: "\<forall>c \<in> set ?s. is_letter c" and f: "sp \<in> set (fulls g')"
        by simp_all
      from l have "CHR ''.'' \<notin> set ?s" using is_letter_not_dot by blast
      moreover from IT(2) f have "IsWord ?lib ?s" by (simp add: terminal_def)
      ultimately have "Word ?s \<in> set (m_vecWords ?lib)" by (simp add: IsWord_no_dot [OF inv])
      with gs [OF sp] l show ?thesis by blast
    qed
    have "fulls g' = vecSpans g'"
      unfolding fulls_def using full by (auto simp: fulls_def filter_id_conv)
    with IT(2) have "distinct (map (span_string g') (vecSpans g'))" by (simp add: terminal_def)
    then have d: "distinct (map (Some \<circ> span_string g') (vecSpans g'))"
      by (simp add: distinct_map comp_inj_on_iff [symmetric] inj_on_def)
    have eq: "map (\<lambda>sp. map_option fst (GetString g' sp Attribute_new)) (vecSpans g')
        = map (Some \<circ> span_string g') (vecSpans g')"
      by (rule map_cong [OF refl]) (simp add: gs)
    have 2: "distinct (map (\<lambda>sp. map_option fst (GetString g' sp Attribute_new)) (vecSpans g'))"
      unfolding eq by (rule d)
    from 1 2 show ?thesis by blast
  qed
  from A B C show ?thesis by blast
qed

theorem emitted_grid_checked_witness:
  "Init [''C.T''] [''c'', ''t'', ''a'', ''cat''] = Some cat_engine
   \<and> map vecLines (fst (snd (Search 3 cat_engine))) = [[''CAT'']]
   \<and> vecSpans (hd (fst (snd (Search 3 cat_engine)))) = vecSpans (m_grid cat_engine)
   \<and> distinct (map (\<lambda>sp. map_option fst (GetString (hd (fst (snd (Search 3 cat_engine)))) sp Attribute_new))
        (vecSpans (hd (fst (snd (Search 3 cat_engine))))))"
proof -
  have ne: "Init [''C.T''] [''c'', ''t'', ''a'', ''cat''] \<noteq> None" by code_simp
  then have i: "Init [''C.T''] [''c'', ''t'', ''a'', ''cat''] = Some cat_engine"
    by (simp add: cat_engine_def)
  have ev: "map vecLines (fst (snd (Search 3 cat_engine))) = [[''CAT'']]"
    unfolding cat_engine_def by code_simp
  then have "fst (snd (Search 3 cat_engine)) \<noteq> []" by auto
  then have m: "hd (fst (snd (Search 3 cat_engine))) \<in> set (fst (snd (Search 3 cat_engine)))"
    by simp
  have a1: "\<forall>line \<in> set (vecLines (m_grid cat_engine)). \<forall>c \<in> set line. is_cell c"
    unfolding cat_engine_def by code_simp
  have a2: "\<forall>w \<in> set (m_vecWords (m_lib cat_engine)). \<forall>c \<in> set (word_s w). is_letter c"
    unfolding cat_engine_def by code_simp
  note th = emitted_grid_checked [OF i m]
  from th have c1: "vecSpans (hd (fst (snd (Search 3 cat_engine)))) = vecSpans (m_grid cat_engine)"
    by blast
  from th a1 a2 have c2: "distinct (map (\<lambda>sp. map_option fst
      (GetString (hd (fst (snd (Search 3 cat_engine)))) sp Attribute_new))
        (vecSpans (hd (fst (snd (Search 3 cat_engine))))))"
    by blast
  from i ev c1 c2 show ?thesis by blast
qed

theorem emitted_grid_checked_counterexample:
  "Init [''a''] [] \<noteq> None
   \<and> m_vecWords (m_lib lower_engine) = []
   \<and> map vecLines (fst (snd (Search 1 lower_engine))) = [[''a'']]
   \<and> map (\<lambda>sp. map_option fst (GetString (hd (fst (snd (Search 1 lower_engine)))) sp Attribute_new))
        (vecSpans (hd (fst (snd (Search 1 lower_engine))))) = [Some ''a'', Some ''a'']"
  unfolding lower_engine_def by code_simp

subsection \<open>Termination of the search\<close>

text \<open>
  The number of blank cells of a grid.
\<close>

definition count_blanks :: "Grid \<Rightarrow> nat" where
  "count_blanks g = sum_list (map (\<lambda>line. length (filter (\<lambda>c. c = CHR ''.'') line)) (vecLines g))"

definition dotted_engine :: Engine where
  "dotted_engine = the (Init [''A.''] [''A'', ''A.''])"

lemma length_filter_update:
  assumes "k < length xs"
  shows "length (filter P (xs[k := c])) + (if P (xs ! k) then 1 else 0)
    = length (filter P xs) + (if P c then 1 else 0)"
proof -
  have "length (filter P xs) = length (filter P (take k xs @ xs ! k # drop (Suc k) xs))"
    using assms by (simp add: id_take_nth_drop [symmetric])
  moreover have "xs[k := c] = take k xs @ c # drop (Suc k) xs"
    using assms by (rule upd_conv_take_nth_drop)
  ultimately show ?thesis by simp
qed

lemma count_blanks_put:
  assumes "in_lines g p" "c \<noteq> CHR ''.''"
  shows "count_blanks (put g p c) + (if cell_at g p = CHR ''.'' then 1 else 0) = count_blanks g"
proof -
  let ?f = "\<lambda>line. length (filter (\<lambda>c. c = CHR ''.'') line)"
  let ?r = "nat (nRow p)" and ?k = "nat (nCol p)"
  let ?xs = "vecLines g"
  from assms(1) have r: "?r < length ?xs" and k: "?k < length (?xs ! ?r)"
    by (simp_all add: in_lines_def)
  have a: "?f ((?xs ! ?r)[?k := c]) + (if cell_at g p = CHR ''.'' then 1 else 0) = ?f (?xs ! ?r)"
    using length_filter_update [OF k, of "\<lambda>c. c = CHR ''.''" c] assms(2)
    by (simp add: cell_at_def)
  have "count_blanks (put g p c) = sum_list ((map ?f ?xs)[?r := ?f ((?xs ! ?r)[?k := c])])"
    by (simp add: count_blanks_def put_def map_update)
  also have "\<dots> = sum_list (map ?f ?xs) + ?f ((?xs ! ?r)[?k := c]) - (map ?f ?xs) ! ?r"
    using r by (simp add: sum_list_update)
  finally have b: "count_blanks (put g p c) = count_blanks g + ?f ((?xs ! ?r)[?k := c]) - ?f (?xs ! ?r)"
    using r by (simp add: count_blanks_def)
  have le: "?f (?xs ! ?r) \<le> count_blanks g"
    unfolding count_blanks_def using r by (intro member_le_sum_list) auto
  have ar: "n' + d = A" if "n' = A + B - C" "C \<le> A" "B + d = C" for n' A B C d :: nat
    using that by arith
  from b le a show ?thesis by (rule ar)
qed

lemma count_blanks_SetString_loop:
  assumes "SetString_loop g sp w js = Some g'" "distinct js"
    "\<forall>i \<in> set js. w ! nat i \<noteq> CHR ''.''"
  shows "count_blanks g' + length (filter (\<lambda>i. cell_at g (span_point sp i) = CHR ''.'') js)
    = count_blanks g"
  using assms
proof (induction js arbitrary: g)
  case Nil
  then show ?case by simp
next
  case (Cons i js)
  let ?p = "span_point sp i"
  let ?g1 = "put g ?p (w ! nat i)"
  from Cons.prems(1) have v: "valid g ?p" and rec: "SetString_loop ?g1 sp w js = Some g'"
    by (auto simp: GetPoint_dir SetChar_valid split: if_splits bind_splits)
  from Cons.prems(2) have d: "distinct js" "i \<notin> set js" by simp_all
  note sc = shape_cong [of ?g1 g, simplified]
  have il: "in_lines g ?p" using v by (rule valid_in_lines)
  have same: "cell_at ?g1 (span_point sp j) = cell_at g (span_point sp j)" if "j \<in> set js" for j
  proof -
    from SetString_loop_spec [OF rec d(1)] that have "valid ?g1 (span_point sp j)" by blast
    then have "in_lines g (span_point sp j)" by (simp add: sc valid_in_lines)
    moreover from that d(2) have "span_point sp j \<noteq> ?p" by (auto simp: span_point_inj)
    ultimately show ?thesis using il by (simp add: cell_at_put)
  qed
  have f: "filter (\<lambda>j. cell_at ?g1 (span_point sp j) = CHR ''.'') js
      = filter (\<lambda>j. cell_at g (span_point sp j) = CHR ''.'') js"
    by (rule filter_cong [OF refl]) (simp add: same)
  from Cons.IH [OF rec d(1)] Cons.prems(3)
  have "count_blanks g' + length (filter (\<lambda>j. cell_at g (span_point sp j) = CHR ''.'') js)
      = count_blanks ?g1"
    by (simp add: f)
  moreover from count_blanks_put [OF il] Cons.prems(3)
  have "count_blanks ?g1 + (if cell_at g ?p = CHR ''.'' then 1 else 0) = count_blanks g"
    by simp
  ultimately show ?case by (simp split: if_splits)
qed

lemma count_blanks_SetString:
  assumes "SetString g sp w = Some g'" "CHR ''.'' \<notin> set w" "CHR ''.'' \<in> set (span_string g sp)"
  shows "count_blanks g' < count_blanks g"
proof -
  from assms(1) have n: "nLen sp = int (length w)"
    and l: "SetString_loop g sp w [0..nLen sp - 1] = Some g'"
    by (auto simp: SetString_def Let_def split: if_splits)
  have "\<forall>i \<in> set [0..nLen sp - 1]. w ! nat i \<noteq> CHR ''.''"
  proof
    fix i assume "i \<in> set [0..nLen sp - 1]"
    with n have "nat i < length w" by auto
    then have "w ! nat i \<in> set w" by (rule nth_mem)
    with assms(2) show "w ! nat i \<noteq> CHR ''.''" by metis
  qed
  from count_blanks_SetString_loop [OF l distinct_upto this]
  have eq: "count_blanks g' + length (filter (\<lambda>i. cell_at g (span_point sp i) = CHR ''.'')
      [0..nLen sp - 1]) = count_blanks g" .
  from assms(3) obtain i where "0 \<le> i" "i < nLen sp" "cell_at g (span_point sp i) = CHR ''.''"
    by (auto simp: in_span_string)
  then have "i \<in> set (filter (\<lambda>i. cell_at g (span_point sp i) = CHR ''.'') [0..nLen sp - 1])"
    by simp
  then have "0 < length (filter (\<lambda>i. cell_at g (span_point sp i) = CHR ''.'') [0..nLen sp - 1])"
    by (rule length_pos_if_in_set)
  with eq show ?thesis by linarith
qed

lemma commit_decreases:
  assumes inv: "lib_inv lib" and nd: "\<forall>w \<in> set (m_vecWords lib). CHR ''.'' \<notin> set (word_s w)"
    and p: "IsPartial (attr_of (span_string g sp))"
    and f: "FindWord lib (span_string g sp) = Some words" and w: "w \<in> set words"
    and s: "SetString g sp (word_s w) = Some g1"
  shows "count_blanks g1 < count_blanks g"
proof -
  from FindWord_Some [OF inv f] w nd have "CHR ''.'' \<notin> set (word_s w)" by simp
  moreover from p have "CHR ''.'' \<in> set (span_string g sp)"
    by (simp add: IsPartial_def attr_of_def)
  ultimately show ?thesis using s by (intro count_blanks_SetString)
qed

lemma CommitSlot_words_spec_returns:
  "(\<And>w g1. w \<in> set rest \<Longrightarrow> SetString g (span slot) (word_s w) = Some g1 \<Longrightarrow>
      snd (Loop n lib g1 d) \<noteq> OutOfFuel) \<Longrightarrow>
   snd (CommitSlot_words_spec n lib g slot d rest) \<noteq> OutOfFuel"
proof (induction rest)
  case Nil
  then show ?case by simp
next
  case (Cons w rest)
  show ?case
  proof (cases "SetString g (span slot) (word_s w)")
    case None
    then show ?thesis by simp
  next
    case (Some g1)
    obtain out e where l: "Loop n lib g1 d = (out, e)" by (cases "Loop n lib g1 d")
    obtain out' e' where c: "CommitSlot_words_spec n lib g slot d rest = (out', e')"
      by (cases "CommitSlot_words_spec n lib g slot d rest")
    from Cons.prems [OF _ Some] l have e: "e \<noteq> OutOfFuel" by simp
    have "snd (CommitSlot_words_spec n lib g slot d rest) \<noteq> OutOfFuel"
      by (rule Cons.IH) (rule Cons.prems, simp_all)
    with c have e': "e' \<noteq> OutOfFuel" by simp
    from Some l c e e' show ?thesis by (cases e) simp_all
  qed
qed

lemma Loop_returns:
  assumes inv: "lib_inv lib" and nd: "\<forall>w \<in> set (m_vecWords lib). CHR ''.'' \<notin> set (word_s w)"
  shows "count_blanks g < n \<Longrightarrow> snd (Loop n lib g d) \<noteq> OutOfFuel"
proof (induction n arbitrary: g d)
  case 0
  then show ?case by simp
next
  case (Suc n)
  show ?case
  proof (cases "partials g = []")
    case True
    then show ?thesis by (simp add: Loop_Suc)
  next
    case False
    let ?sp = "hd (partials g)"
    from False have "?sp \<in> set (partials g)" by simp
    then have p: "IsPartial (attr_of (span_string g ?sp))" by (simp add: partials_def)
    have "snd (CommitSlot_spec n lib g (slot_of g ?sp) (d + 1)) \<noteq> OutOfFuel"
    proof (cases "FindWord lib (span_string g ?sp)")
      case None
      then show ?thesis by (simp add: CommitSlot_spec_def slot_of_def)
    next
      case (Some words)
      have "snd (CommitSlot_words_spec n lib g (slot_of g ?sp) (d + 1) words) \<noteq> OutOfFuel"
      proof (rule CommitSlot_words_spec_returns)
        fix w g1 assume w: "w \<in> set words"
          and s: "SetString g (span (slot_of g ?sp)) (word_s w) = Some g1"
        then have "SetString g ?sp (word_s w) = Some g1" by (simp add: slot_of_def)
        from commit_decreases [OF inv nd p Some w this] Suc.prems
        have "count_blanks g1 < n" by simp
        then show "snd (Loop n lib g1 (d + 1)) \<noteq> OutOfFuel" by (rule Suc.IH)
      qed
      with Some show ?thesis by (simp add: CommitSlot_spec_def slot_of_def)
    qed
    with False show ?thesis by (simp add: Loop_Suc CommitSlot_eq_spec)
  qed
qed

text \<open>A run that did not run out of fuel is the run of any larger fuel.\<close>

lemma CommitSlot_words_spec_stable:
  assumes "\<And>g1 d. snd (Loop n lib g1 d) \<noteq> OutOfFuel \<Longrightarrow> Loop (Suc n) lib g1 d = Loop n lib g1 d"
  shows "snd (CommitSlot_words_spec n lib g slot d rest) \<noteq> OutOfFuel \<Longrightarrow>
    CommitSlot_words_spec (Suc n) lib g slot d rest = CommitSlot_words_spec n lib g slot d rest"
proof (induction rest)
  case Nil
  then show ?case by simp
next
  case (Cons w rest)
  show ?case
  proof (cases "SetString g (span slot) (word_s w)")
    case None
    then show ?thesis by simp
  next
    case (Some g1)
    obtain out e where l: "Loop n lib g1 d = (out, e)" by (cases "Loop n lib g1 d")
    obtain out' e' where c: "CommitSlot_words_spec n lib g slot d rest = (out', e')"
      by (cases "CommitSlot_words_spec n lib g slot d rest")
    from Cons.prems Some l c have e: "e \<noteq> OutOfFuel" by (cases e) auto
    with assms [of g1 d] l have l': "Loop (Suc n) lib g1 d = (out, e)" by simp
    show ?thesis
    proof (cases "e = Returned")
      case True
      with Cons.prems Some l c have "e' \<noteq> OutOfFuel" by auto
      with Cons.IH c have "CommitSlot_words_spec (Suc n) lib g slot d rest = (out', e')" by simp
      with Some l l' c True show ?thesis by simp
    next
      case False
      with Some l l' e show ?thesis by (cases e) simp_all
    qed
  qed
qed

lemma Loop_Suc_stable:
  "snd (Loop n lib g d) \<noteq> OutOfFuel \<Longrightarrow> Loop (Suc n) lib g d = Loop n lib g d"
proof (induction n arbitrary: g d)
  case 0
  then show ?case by simp
next
  case (Suc n)
  show ?case
  proof (cases "partials g = []")
    case True
    then show ?thesis by (simp add: Loop_Suc)
  next
    case False
    let ?slot = "slot_of g (hd (partials g))"
    show ?thesis
    proof (cases "(\<forall>sp \<in> set (vecSpans g). readable g sp)
        \<and> (\<forall>sp \<in> set (fulls g). IsWord lib (span_string g sp))
        \<and> distinct (map (span_string g) (fulls g))")
      case F: False
      then show ?thesis by (auto simp: Loop_Suc [of _ lib g d])
    next
      case T: True
      with False Suc.prems have c: "snd (CommitSlot_spec n lib g ?slot (d + 1)) \<noteq> OutOfFuel"
        by (simp add: Loop_Suc [of n lib g d] CommitSlot_eq_spec)
      have "CommitSlot_spec (Suc n) lib g ?slot (d + 1) = CommitSlot_spec n lib g ?slot (d + 1)"
      proof (cases "FindWord lib (sPattern ?slot)")
        case None
        then show ?thesis by (simp add: CommitSlot_spec_def)
      next
        case (Some words)
        with c have "snd (CommitSlot_words_spec n lib g ?slot (d + 1) words) \<noteq> OutOfFuel"
          by (simp add: CommitSlot_spec_def)
        from CommitSlot_words_spec_stable [OF Suc.IH this] Some show ?thesis
          by (simp add: CommitSlot_spec_def)
      qed
      with False T show ?thesis
        by (simp add: Loop_Suc [of _ lib g d] CommitSlot_eq_spec)
    qed
  qed
qed

lemma Loop_stable:
  "snd (Loop n lib g d) \<noteq> OutOfFuel \<Longrightarrow> n \<le> m \<Longrightarrow> Loop m lib g d = Loop n lib g d"
proof (induction m)
  case 0
  then show ?case by simp
next
  case (Suc m)
  show ?case
  proof (cases "n = Suc m")
    case True
    then show ?thesis by simp
  next
    case False
    with Suc.prems have "n \<le> m" by simp
    with Suc have eq: "Loop m lib g d = Loop n lib g d" by simp
    with Suc.prems(1) have "snd (Loop m lib g d) \<noteq> OutOfFuel" by simp
    from Loop_Suc_stable [OF this] eq show ?thesis by simp
  qed
qed


text \<open>
  The engine of the grid \<open>A.\<close> with the words \<open>A\<close> and \<open>A.\<close>: the candidate for the
  partial slot \<open>A.\<close> is the word \<open>A.\<close> itself, the commit leaves the grid as it is, and
  the search never returns, whatever the fuel.
\<close>

lemma dotted_never_returns: "snd (snd (Search fuel dotted_engine)) = OutOfFuel"
proof -
  let ?g = "m_grid dotted_engine" and ?lib = "m_lib dotted_engine"
  let ?sp = "\<lparr>point = \<lparr>nRow = 0, nCol = 0\<rparr>, nLen = 2, bVert = False\<rparr>"
  have c: "classify ?g (vecSpans ?g) ([], [], []) =
      Some ([\<lparr>span = \<lparr>point = \<lparr>nRow = 0, nCol = 1\<rparr>, nLen = 1, bVert = True\<rparr>, sPattern = ''.''\<rparr>],
            [\<lparr>span = ?sp, sPattern = ''A.''\<rparr>],
            [\<lparr>span = \<lparr>point = \<lparr>nRow = 0, nCol = 0\<rparr>, nLen = 1, bVert = True\<rparr>, sPattern = ''A''\<rparr>])"
    unfolding dotted_engine_def by code_simp
  have iw: "IsWord ?lib ''A''" unfolding dotted_engine_def by code_simp
  have fw: "FindWord ?lib ''A.'' = Some [Word ''A.'', Word ''A.'']"
    unfolding dotted_engine_def by code_simp
  have ss: "SetString ?g ?sp ''A.'' = Some ?g" unfolding dotted_engine_def by code_simp
  have "Loop n ?lib ?g d = ([], OutOfFuel)" for n d
  proof (induction n arbitrary: d)
    case 0
    show ?case by simp
  next
    case (Suc n)
    show ?case
      by (simp add: Loop.simps(2) c iw ExistsInSet_def AddToSet_def CommitSlot.simps fw ss Suc)
  qed
  then show ?thesis by (simp add: Search_def)
qed

text \<open>
  C8, as the code has it. When no loaded word contains the wildcard character, the
  search returns: run with one more unit of fuel than the input grid has blank cells it
  does not run out of fuel, and any larger fuel gives the same run. The measure is the
  number of blank cells: a commit writes a candidate for the pattern of a partial slot,
  and the grid it leaves has strictly fewer blank cells.
\<close>

theorem Search_terminates:
  assumes "Init sGridFile sLibraryFile = Some e"
    and "\<forall>w \<in> set (m_vecWords (m_lib e)). CHR ''.'' \<notin> set (word_s w)"
  shows "snd (snd (Search (Suc (count_blanks (m_grid e))) e)) \<noteq> OutOfFuel
    \<and> (\<forall>fuel. count_blanks (m_grid e) < fuel \<longrightarrow>
          Search fuel e = Search (Suc (count_blanks (m_grid e))) e)
    \<and> (\<forall>g sp s a words w g1.
          GetString g sp Attribute_new = Some (s, a) \<and> IsPartial a
          \<and> FindWord (m_lib e) s = Some words \<and> w \<in> set words
          \<and> SetString g sp (word_s w) = Some g1
          \<longrightarrow> count_blanks g1 < count_blanks g)"
proof (intro conjI allI impI)
  note inv = Init_facts(5) [OF assms(1)]
  let ?n = "Suc (count_blanks (m_grid e))"
  have r: "snd (Loop ?n (m_lib e) (m_grid e) 0) \<noteq> OutOfFuel"
    by (rule Loop_returns [OF inv assms(2)]) simp
  then show "snd (snd (Search ?n e)) \<noteq> OutOfFuel" by (simp add: Search_def)
  show "Search fuel e = Search ?n e" if "count_blanks (m_grid e) < fuel" for fuel
  proof -
    from that have "?n \<le> fuel" by simp
    from Loop_stable [OF r this] show ?thesis by (simp add: Search_def)
  qed
  show "count_blanks g1 < count_blanks g"
    if h: "GetString g sp Attribute_new = Some (s, a) \<and> IsPartial a
          \<and> FindWord (m_lib e) s = Some words \<and> w \<in> set words
          \<and> SetString g sp (word_s w) = Some g1" for g sp s a words w g1
  proof -
    from h have "s = span_string g sp" "a = attr_of (span_string g sp)"
      by (auto simp: GetString_eq split: if_splits)
    with h show ?thesis
      by (intro commit_decreases [OF inv assms(2), of g sp words w g1]) simp_all
  qed
qed

theorem Search_terminates_witness:
  "Init [''C.T''] [''c'', ''t'', ''a'', ''cat''] = Some cat_engine
   \<and> count_blanks (m_grid cat_engine) = 1
   \<and> snd (snd (Search (Suc (count_blanks (m_grid cat_engine))) cat_engine)) \<noteq> OutOfFuel"
proof -
  have ne: "Init [''C.T''] [''c'', ''t'', ''a'', ''cat''] \<noteq> None" by code_simp
  then have i: "Init [''C.T''] [''c'', ''t'', ''a'', ''cat''] = Some cat_engine"
    by (simp add: cat_engine_def)
  have nd: "\<forall>w \<in> set (m_vecWords (m_lib cat_engine)). CHR ''.'' \<notin> set (word_s w)"
    unfolding cat_engine_def by code_simp
  have cb: "count_blanks (m_grid cat_engine) = 1"
    unfolding cat_engine_def by code_simp
  from Search_terminates [OF i nd]
  have "snd (snd (Search (Suc (count_blanks (m_grid cat_engine))) cat_engine)) \<noteq> OutOfFuel"
    by blast
  with i cb show ?thesis by blast
qed

theorem Search_terminates_counterexample:
  "Init [''A.''] [''A'', ''A.''] \<noteq> None
   \<and> map_option (fst \<circ> snd)
        (classify (m_grid dotted_engine) (vecSpans (m_grid dotted_engine)) ([], [], []))
       = Some [\<lparr>span = \<lparr>point = \<lparr>nRow = 0, nCol = 0\<rparr>, nLen = 2, bVert = False\<rparr>, sPattern = ''A.''\<rparr>]
   \<and> FindWord (m_lib dotted_engine) ''A.'' = Some [Word ''A.'', Word ''A.'']
   \<and> SetString (m_grid dotted_engine) \<lparr>point = \<lparr>nRow = 0, nCol = 0\<rparr>, nLen = 2, bVert = False\<rparr> ''A.''
       = Some (m_grid dotted_engine)
   \<and> snd (snd (Search 25 dotted_engine)) = OutOfFuel"
proof -
  have 1: "Init [''A.''] [''A'', ''A.''] \<noteq> None" by code_simp
  have 2: "map_option (fst \<circ> snd)
        (classify (m_grid dotted_engine) (vecSpans (m_grid dotted_engine)) ([], [], []))
       = Some [\<lparr>span = \<lparr>point = \<lparr>nRow = 0, nCol = 0\<rparr>, nLen = 2, bVert = False\<rparr>, sPattern = ''A.''\<rparr>]"
    unfolding dotted_engine_def by code_simp
  have 3: "FindWord (m_lib dotted_engine) ''A.'' = Some [Word ''A.'', Word ''A.'']"
    unfolding dotted_engine_def by code_simp
  have 4: "SetString (m_grid dotted_engine) \<lparr>point = \<lparr>nRow = 0, nCol = 0\<rparr>, nLen = 2, bVert = False\<rparr> ''A.''
       = Some (m_grid dotted_engine)"
    unfolding dotted_engine_def by code_simp
  from 1 2 3 4 dotted_never_returns [of 25] show ?thesis by simp
qed

end
